theory Spec2Isabelle
  imports Complex_Main "HOL-Library.Log_Nat" "HOL-Library.Word"
begin

section \<open>Machine integers, floats and failures\<close>

text \<open>
  A C++ \<open>int\<close> (32 bits, two's complement) is a HOL \<open>int\<close>; \<open>int32\<close> is the wrap-around
  of a result that is converted to \<open>int\<close>, written where the source can leave the range:
  the shift of \<open>allocationFor\<close> and the conversion of \<open>size()\<close> in \<open>allocation\<close>.
  \<open>size_t\<close> is the conversion of an \<open>int\<close> to the 64-bit unsigned \<open>size_t\<close>.
  A \<open>float\<close> is the \<open>real\<close> it stands for; infinities and NaN are outside the model.
  \<open>fmaxf\<close> returns one of its arguments and is exact. The sum and the product of two
  floats are rounded to a float: \<open>setValueMean\<close> takes the two rounded operations as the
  parameters \<open>fadd\<close> and \<open>fmul\<close>, and \<open>float_add\<close> and \<open>float_mul\<close> are the ones of
  IEEE 754 binary32, the \<open>float\<close> of the platforms Qt runs on.
\<close>

definition INT_MAX :: int where
  "INT_MAX = 2 ^ 31 - 1"

definition int32 :: "int \<Rightarrow> int" where
  "int32 x = (x + 2 ^ 31) mod 2 ^ 32 - 2 ^ 31"

definition size_t :: "int \<Rightarrow> nat" where
  "size_t x = nat (x mod 2 ^ 64)"

text \<open>
  The largest size a \<open>std::vector<float>\<close> accepts (\<open>PTRDIFF_MAX / sizeof(float)\<close>);
  \<open>resize\<close> beyond it throws \<open>std::length_error\<close>. Only negative \<open>int\<close>s converted
  to \<open>size_t\<close> (at least \<open>2^64 - 2^31\<close>) get there.
\<close>

definition max_size :: nat where
  "max_size = 2 ^ 61 - 1"

text \<open>
  The ways an operation leaves its defined behaviour: the conversion to \<open>int\<close> of a float
  that is infinite or NaN, a \<open>resize\<close> beyond \<open>max_size\<close>, an access outside the buffer,
  a remainder by zero, a write through a null pointer, and a float result that is NaN.
\<close>

datatype error =
  FloatToIntUndefined | LengthError | OutOfBounds | DivisionByZero | NullPointer | NotANumber

definition is_pow2 :: "int \<Rightarrow> bool" where
  "is_pow2 n \<longleftrightarrow> 0 < n \<and> n = 2 ^ ceillog2 (nat n)"

subsection \<open>binary32\<close>

text \<open>
  Rounding to nearest, ties to even. A binary32 float has 24 significant bits: a real
  \<open>x\<close> with \<open>2^e \<le> |x| < 2^(e + 1)\<close> is rounded to a multiple of \<open>2^(e - 23)\<close>, and below
  the smallest normal exponent \<open>-126\<close> to a multiple of \<open>2^(-149)\<close>. A result of
  magnitude \<open>2^128\<close> or more is an infinity in the machine, outside the model.
\<close>

definition round_even :: "real \<Rightarrow> int" where
  "round_even y =
     (let f = \<lfloor>y\<rfloor>; r = y - real_of_int f
      in if r < 1 / 2 \<or> (r = 1 / 2 \<and> even f) then f else f + 1)"

definition pow2 :: "int \<Rightarrow> real" where
  "pow2 q = (if 0 \<le> q then 2 ^ nat q else 1 / 2 ^ nat (- q))"

definition float32 :: "real \<Rightarrow> real" where
  "float32 x =
     (if x = 0 then 0
      else
        let q = max \<lfloor>log 2 \<bar>x\<bar>\<rfloor> (- 126) - 23
        in real_of_int (round_even (x / pow2 q)) * pow2 q)"

definition float_add :: "real \<Rightarrow> real \<Rightarrow> real" where
  "float_add a b = float32 (a + b)"

definition float_mul :: "real \<Rightarrow> real \<Rightarrow> real" where
  "float_mul a b = float32 (a * b)"

section \<open>GLLine: a row at every power-of-two resolution\<close>

text \<open>
  \<open>class GLLine : public std::vector<float>\<close> with the private field \<open>levels\<close>; the
  vector it inherits is the field \<open>data\<close>. The layout, from the source:
  \<open>CX\<close> is 1 bin and 1 level, \<open>BBCX\<close> 2 bins and 2 levels, \<open>AAAABBCX\<close> 4 bins and 3 levels.
\<close>

record GLLine =
  levels :: int
  data :: "real list"

definition initialize :: "GLLine \<Rightarrow> GLLine" where
  "initialize l = l\<lparr>data := replicate (length (data l)) 0\<rparr>"

definition allocationFor :: "int \<Rightarrow> int" where
  "allocationFor res = int32 (push_bit 1 res)"

definition resolutionFor :: "int \<Rightarrow> int" where
  "resolutionFor alloc = drop_bit 1 alloc"

text \<open>\<open>std::vector::resize\<close>: keeps the first \<open>n\<close> elements, fills up with zeros.\<close>

definition resize :: "real list \<Rightarrow> nat \<Rightarrow> real list" where
  "resize v n = take n v @ replicate (n - length v) 0"

text \<open>
  \<open>ceil(log2(res))\<close> is \<open>ceillog2\<close> of the library, \<open>nat \<lceil>log 2 (real n)\<rceil>\<close> for positive
  \<open>n\<close>. For \<open>res \<le> 0\<close> the logarithm is minus infinity or NaN and its conversion to
  \<open>int\<close> is undefined.
\<close>

definition setResolution :: "GLLine \<Rightarrow> int \<Rightarrow> error + GLLine" where
  "setResolution l res =
     (if res \<le> 0 then Inl FloatToIntUndefined
      else
        let l1 = l\<lparr>levels := int (ceillog2 (nat res)) + 1\<rparr>;
            n = size_t (allocationFor res)
        in if n > max_size then Inl LengthError
           else Inr (initialize (l1\<lparr>data := resize (data l1) n\<rparr>)))"

definition allocation :: "GLLine \<Rightarrow> int" where
  "allocation l = int32 (int (length (data l)))"

definition resolution :: "GLLine \<Rightarrow> int" where
  "resolution l = resolutionFor (allocation l)"


subsection \<open>Single-bin updates\<close>

text \<open>
  The loop of \<open>setValueMax\<close>: \<open>l\<close> counts the levels left, \<open>p\<close> is the offset of the
  current level, \<open>res\<close> its number of bins, \<open>index\<close> the bin; \<open>fmaxf\<close> is \<open>max\<close>. An
  access outside the buffer is undefined in C++ and ends the model with \<open>OutOfBounds\<close>.
  On a line whose buffer fits an \<open>int\<close>, \<open>p + res\<close> stays within twice the resolution.
\<close>

function setValueMax_loop ::
  "int \<Rightarrow> int \<Rightarrow> int \<Rightarrow> int \<Rightarrow> real \<Rightarrow> real list \<Rightarrow> error + real list" where
  "setValueMax_loop p res l index val d =
     (if l > 0 then
        let i = size_t (p + index)
        in if i < length d
           then setValueMax_loop (p + res) (drop_bit 1 res) (l - 1) (drop_bit 1 index) val
                  (d[i := max val (d ! i)])
           else Inl OutOfBounds
      else Inr d)"
  by pat_completeness auto
termination
  by (relation "measure (\<lambda>(p, res, l, index, val, d). nat l)") auto

definition setValueMax :: "GLLine \<Rightarrow> int \<Rightarrow> real \<Rightarrow> error + GLLine" where
  "setValueMax l index val =
     (case setValueMax_loop 0 (resolution l) (levels l) index val (data l) of
        Inl e \<Rightarrow> Inl e
      | Inr d \<Rightarrow> Inr (l\<lparr>data := d\<rparr>))"

text \<open>
  The loop of \<open>setValueMean\<close>, with the weight \<open>k\<close> that is multiplied by \<open>.5f\<close> at each
  level. \<open>data[i] += k * val\<close> and \<open>k *= .5f\<close> are operations on floats: \<open>fmul\<close> is the
  rounded product and \<open>fadd\<close> the rounded sum.
\<close>

function setValueMean_loop ::
  "(real \<Rightarrow> real \<Rightarrow> real) \<Rightarrow> (real \<Rightarrow> real \<Rightarrow> real) \<Rightarrow>
   int \<Rightarrow> int \<Rightarrow> int \<Rightarrow> int \<Rightarrow> real \<Rightarrow> real \<Rightarrow> real list \<Rightarrow> error + real list" where
  "setValueMean_loop fadd fmul p res l index val k d =
     (if l > 0 then
        let i = size_t (p + index)
        in if i < length d
           then setValueMean_loop fadd fmul (p + res) (drop_bit 1 res) (l - 1) (drop_bit 1 index)
                  val (fmul k (1 / 2)) (d[i := fadd (d ! i) (fmul k val)])
           else Inl OutOfBounds
      else Inr d)"
  by pat_completeness auto
termination
  by (relation "measure (\<lambda>(fadd, fmul, p, res, l, index, val, k, d). nat l)") auto

definition setValueMean ::
  "(real \<Rightarrow> real \<Rightarrow> real) \<Rightarrow> (real \<Rightarrow> real \<Rightarrow> real) \<Rightarrow>
   GLLine \<Rightarrow> int \<Rightarrow> real \<Rightarrow> error + GLLine" where
  "setValueMean fadd fmul l index val =
     (case setValueMean_loop fadd fmul 0 (resolution l) (levels l) index val 1 (data l) of
        Inl e \<Rightarrow> Inl e
      | Inr d \<Rightarrow> Inr (l\<lparr>data := d\<rparr>))"

text \<open>
  The value of the weight at the \<open>j\<close>-th level the loop visits, when it starts at \<open>k\<close>:
  \<open>k\<close> multiplied \<open>j\<close> times by \<open>.5f\<close>.
\<close>

primrec weight :: "(real \<Rightarrow> real \<Rightarrow> real) \<Rightarrow> real \<Rightarrow> nat \<Rightarrow> real" where
  "weight fmul k 0 = k"
| "weight fmul k (Suc j) = weight fmul (fmul k (1 / 2)) j"

text \<open>
  \<open>setValueMax\<close> applied bin by bin, \<open>setValueMax(i, values[i])\<close> for each bin in
  turn from bin \<open>i\<close> on, as the spec's testable properties apply it.
\<close>

fun setValuesMax :: "GLLine \<Rightarrow> int \<Rightarrow> real list \<Rightarrow> error + GLLine" where
  "setValuesMax l i [] = Inr l"
| "setValuesMax l i (v # vs) =
     (case setValueMax l i v of
        Inl e \<Rightarrow> Inl e
      | Inr l' \<Rightarrow> setValuesMax l' (i + 1) vs)"

text \<open>
  The two loops differ only in what they write: \<open>propagate f\<close> is their common walk up
  the levels, writing \<open>f j\<close> of the old value at the \<open>j\<close>-th level it visits.
\<close>

function propagate ::
  "(nat \<Rightarrow> real \<Rightarrow> real) \<Rightarrow> int \<Rightarrow> int \<Rightarrow> int \<Rightarrow> int \<Rightarrow> real list \<Rightarrow> error + real list" where
  "propagate f p res l index d =
     (if l > 0 then
        let i = size_t (p + index)
        in if i < length d
           then propagate (\<lambda>j. f (Suc j)) (p + res) (drop_bit 1 res) (l - 1) (drop_bit 1 index)
                  (d[i := f 0 (d ! i)])
           else Inl OutOfBounds
      else Inr d)"
  by pat_completeness auto
termination
  by (relation "measure (\<lambda>(f, p, res, l, index, d). nat l)") auto

subsection \<open>The pyramid read level by level\<close>

text \<open>
  Level 0 starts at offset 0 and has \<open>r\<close> bins; each coarser level follows the previous
  one and has half its bins. \<open>bin l k i\<close> is bin \<open>i\<close> of level \<open>k\<close>.
\<close>

primrec level_offset :: "nat \<Rightarrow> nat \<Rightarrow> nat" where
  "level_offset r 0 = 0"
| "level_offset r (Suc k) = r + level_offset (r div 2) k"

definition bin :: "GLLine \<Rightarrow> nat \<Rightarrow> nat \<Rightarrow> real" where
  "bin l k i = data l ! (level_offset (nat (resolution l)) k + i)"

text \<open>
  The class invariant of a line of resolution \<open>r\<close>, as \<open>setResolution\<close> leaves it:
  \<open>r\<close> is a power of two, the buffer has \<open>2 * r\<close> elements and \<open>levels\<close> fits \<open>r\<close>.
\<close>

definition wf_line :: "GLLine \<Rightarrow> int \<Rightarrow> bool" where
  "wf_line l r \<longleftrightarrow>
     is_pow2 r \<and> resolution l = r \<and> length (data l) = nat (2 * r)
     \<and> levels l = int (ceillog2 (nat r)) + 1"

text \<open>The max-pyramid invariant: every bin above level 0 is the max of its two children.\<close>

definition max_pyramid :: "GLLine \<Rightarrow> bool" where
  "max_pyramid l \<longleftrightarrow>
     (\<forall>k \<in> {1..<nat (levels l)}. \<forall>i \<in> {..<nat (resolution l) div 2 ^ k}.
        bin l k i = max (bin l (k - 1) (2 * i)) (bin l (k - 1) (2 * i + 1)))"

text \<open>The buffer offset of the ancestor of bin \<open>index\<close> at level \<open>k\<close>.\<close>

definition ancestor :: "GLLine \<Rightarrow> int \<Rightarrow> nat \<Rightarrow> nat" where
  "ancestor l index k = level_offset (nat (resolution l)) k + nat (drop_bit k index)"

subsection \<open>Runs of updates\<close>

text \<open>
  A run of single-bin updates on one line, as a caller makes them, stopping at the
  first that fails.
\<close>

datatype update = SetValueMax int real | SetValueMean int real

fun apply_update ::
  "(real \<Rightarrow> real \<Rightarrow> real) \<Rightarrow> (real \<Rightarrow> real \<Rightarrow> real) \<Rightarrow>
   GLLine \<Rightarrow> update \<Rightarrow> error + GLLine" where
  "apply_update fadd fmul l (SetValueMax index val) = setValueMax l index val"
| "apply_update fadd fmul l (SetValueMean index val) = setValueMean fadd fmul l index val"

fun update_index :: "update \<Rightarrow> int" where
  "update_index (SetValueMax index val) = index"
| "update_index (SetValueMean index val) = index"

fun apply_updates ::
  "(real \<Rightarrow> real \<Rightarrow> real) \<Rightarrow> (real \<Rightarrow> real \<Rightarrow> real) \<Rightarrow>
   GLLine \<Rightarrow> update list \<Rightarrow> error + GLLine" where
  "apply_updates fadd fmul l [] = Inr l"
| "apply_updates fadd fmul l (u # us) =
     (case apply_update fadd fmul l u of
        Inl e \<Rightarrow> Inl e
      | Inr l' \<Rightarrow> apply_updates fadd fmul l' us)"

subsection \<open>Bulk operations\<close>

text \<open>
  Modelled from the spec: the rebuild of the coarser levels that the bulk operations end
  with (\<open>rescaleMax\<close>, \<open>rescaleMean\<close>) is declared in \<open>GLWaterfall.h\<close>, but its body is
  not among the sources. The spec, sections 3 and 4.1: all coarser levels are rebuilt
  bottom-up from scratch, bin \<open>i\<close> of level \<open>k\<close> being the max (or mean) of bins \<open>2i\<close> and
  \<open>2i + 1\<close> of level \<open>k - 1\<close>. \<open>halve f\<close> is one such step, \<open>pyramid f n xs\<close> the \<open>n\<close>
  levels above and including the finest level \<open>xs\<close>, and \<open>rebuild\<close> writes them over the
  front of the buffer.
\<close>

fun halve :: "(real \<Rightarrow> real \<Rightarrow> real) \<Rightarrow> real list \<Rightarrow> real list" where
  "halve f (a # b # xs) = f a b # halve f xs"
| "halve f xs = []"

primrec pyramid :: "(real \<Rightarrow> real \<Rightarrow> real) \<Rightarrow> nat \<Rightarrow> real list \<Rightarrow> real list" where
  "pyramid f 0 xs = []"
| "pyramid f (Suc n) xs = xs @ pyramid f n (halve f xs)"

definition rebuild :: "(real \<Rightarrow> real \<Rightarrow> real) \<Rightarrow> GLLine \<Rightarrow> real list \<Rightarrow> GLLine" where
  "rebuild f l xs =
     (let ys = pyramid f (nat (levels l)) xs
      in l\<lparr>data := ys @ drop (length ys) (data l)\<rparr>)"

text \<open>
  Modelled from the spec: \<open>GLLine::assignMax\<close> is declared in \<open>GLWaterfall.h\<close>, but its
  body is not among the sources. The spec, section 4.1: it overwrites the finest level
  from an external array of exactly \<open>resolution\<close> samples, then rebuilds all coarser
  levels. An array with fewer samples is read past its end.
\<close>

definition assignMax :: "GLLine \<Rightarrow> real list \<Rightarrow> error + GLLine" where
  "assignMax l values =
     (let res = nat (resolution l)
      in if length values < res then Inl OutOfBounds
         else Inr (rebuild max l (take res values)))"

text \<open>
  Modelled from the spec: \<open>GLLine::reduceMean\<close> is declared in \<open>GLWaterfall.h\<close>, but its
  body is not among the sources. The spec, sections 4.1 and 7: it takes an array whose
  length may exceed \<open>resolution\<close>, each output bin aggregates \<open>length / resolution\<close>
  contiguous input samples by their mean (a remainder is truncated), then the pyramid is
  rebuilt. \<open>chunks ratio n xs\<close> are the first \<open>n\<close> runs of \<open>ratio\<close> samples. What happens
  with fewer samples than bins is not said: the mean of no samples is not a number.
\<close>

primrec chunks :: "nat \<Rightarrow> nat \<Rightarrow> real list \<Rightarrow> real list list" where
  "chunks ratio 0 xs = []"
| "chunks ratio (Suc n) xs = take ratio xs # chunks ratio n (drop ratio xs)"

definition mean :: "real list \<Rightarrow> real" where
  "mean xs = sum_list xs / real (length xs)"

definition reduceMean :: "GLLine \<Rightarrow> real list \<Rightarrow> int \<Rightarrow> error + GLLine" where
  "reduceMean l values len =
     (let res = resolution l
      in if int (length values) < len then Inl OutOfBounds
         else if res = 0 then Inl DivisionByZero
         else
           let ratio = len div res
           in if ratio \<le> 0 then Inl NotANumber
              else Inr (rebuild (\<lambda>a b. (a + b) / 2) l
                          (map mean (chunks (nat ratio) (nat res) values))))"

section \<open>The OpenGL context and the widget\<close>

text \<open>
  \<open>struct GLWaterfallOpenGLContext\<close>, field by field. An OpenGL object of Qt (vertex
  array, buffer, shader, program) is the name the driver gives it; a texture is the image
  it holds, a list of rows of texels; a pointer is an \<open>option\<close>, \<open>nullptr\<close> being \<open>None\<close>.
\<close>

type_synonym QOpenGLVertexArrayObject = nat
type_synonym QOpenGLBuffer = nat
type_synonym QOpenGLShaderProgram = nat
type_synonym QOpenGLShader = nat
type_synonym QOpenGLTexture = "real list list"
type_synonym GLLineHistory = "GLLine list"

record GLWaterfallOpenGLContext =
  m_vao :: QOpenGLVertexArrayObject
  m_vbo :: QOpenGLBuffer
  m_ibo :: QOpenGLBuffer
  m_program :: QOpenGLShaderProgram
  m_waterfall :: "QOpenGLTexture option"
  m_palette :: "QOpenGLTexture option"
  m_vertexShader :: "QOpenGLShader option"
  m_fragmentShader :: "QOpenGLShader option"
  m_history :: GLLineHistory
  m_pool :: GLLineHistory
  m_paletBuf :: "8 word list"
  m_firstAccum :: bool
  m_row :: int
  m_rowSize :: int
  m_rowCount :: int
  m_maxRowSize :: int
  m_useMaxBlending :: bool
  m :: real
  x0 :: real
  m_updatePalette :: bool
  c_x0 :: real
  c_x1 :: real
  m_zoom :: real
  m_width :: int
  m_height :: int

text \<open>
  The context as its default member initialisers leave it, before \<open>initialize()\<close> has
  created any OpenGL object (the object names are 0, the pointers null).
\<close>

definition new_context :: GLWaterfallOpenGLContext where
  "new_context =
     \<lparr>m_vao = 0, m_vbo = 0, m_ibo = 0, m_program = 0,
      m_waterfall = None, m_palette = None, m_vertexShader = None, m_fragmentShader = None,
      m_history = [], m_pool = [], m_paletBuf = [], m_firstAccum = True,
      m_row = 0, m_rowSize = 8192, m_rowCount = 2048, m_maxRowSize = 0,
      m_useMaxBlending = False, m = 1, x0 = 0, m_updatePalette = False,
      c_x0 = 0, c_x1 = 0, m_zoom = 1, m_width = 0, m_height = 0\<rparr>"

text \<open>
  \<open>class GLWaterfall : public AbstractWaterfall\<close>: the state of the base class, which is
  not among the sources, is the field \<open>abstractWaterfall\<close> of any type.
\<close>

record 'a GLWaterfall =
  abstractWaterfall :: 'a
  glCtx :: GLWaterfallOpenGLContext

definition setMaxBlending :: "'a GLWaterfall \<Rightarrow> bool \<Rightarrow> 'a GLWaterfall" where
  "setMaxBlending w val = w\<lparr>glCtx := (glCtx w)\<lparr>m_useMaxBlending := val\<rparr>\<rparr>"

text \<open>
  Modelled from the spec: \<open>GLWaterfallOpenGLContext::flushOneLine\<close> is declared in
  \<open>GLWaterfall.h\<close>, but its body is not among the sources. The spec, section 4.3: each
  commit writes one row at cursor \<open>row\<close>, then \<open>row = (row + 1) mod rowCount\<close>; wrapping
  does not erase old rows. \<open>commit\<close> is that step on the texture \<open>m_waterfall\<close>,
  whose rows are the image; without a texture there is nothing to write to.
\<close>

definition commit :: "real list \<Rightarrow> GLWaterfallOpenGLContext \<Rightarrow> error + GLWaterfallOpenGLContext" where
  "commit line c =
     (case m_waterfall c of
        None \<Rightarrow> Inl NullPointer
      | Some t \<Rightarrow>
          if m_row c < 0 \<or> nat (m_row c) \<ge> length t then Inl OutOfBounds
          else if m_rowCount c = 0 then Inl DivisionByZero
          else Inr (c\<lparr>m_waterfall := Some (t[nat (m_row c) := line]),
                      m_row := (m_row c + 1) mod m_rowCount c\<rparr>))"

text \<open>A run of commits, first row first, stopping at the first that fails.\<close>

fun commits :: "real list list \<Rightarrow> GLWaterfallOpenGLContext \<Rightarrow> error + GLWaterfallOpenGLContext" where
  "commits [] c = Inr c"
| "commits (line # lines) c =
     (case commit line c of
        Inl e \<Rightarrow> Inl e
      | Inr c' \<Rightarrow> commits lines c')"

section \<open>Basic facts\<close>

lemma is_pow2_iff: "is_pow2 n \<longleftrightarrow> (\<exists>k. n = 2 ^ k)"
proof
  assume "is_pow2 n"
  then show "\<exists>k. n = 2 ^ k"
    unfolding is_pow2_def by blast
next
  assume "\<exists>k. n = 2 ^ k"
  then obtain k where n: "n = 2 ^ k" ..
  have e: "nat ((2::int) ^ k) = 2 ^ k"
    by (simp add: nat_power_eq)
  have "ceillog2 (nat ((2::int) ^ k)) = k"
    unfolding e by (rule ceillog2_2_power)
  then show "is_pow2 n"
    unfolding is_pow2_def n by simp
qed

lemma int32_id: "- (2 ^ 31) \<le> x \<Longrightarrow> x < 2 ^ 31 \<Longrightarrow> int32 x = x"
  unfolding int32_def by (simp add: mod_pos_pos_trivial)

lemma size_t_id: "0 \<le> x \<Longrightarrow> x < 2 ^ 64 \<Longrightarrow> size_t x = nat x"
  unfolding size_t_def by (simp add: mod_pos_pos_trivial)

lemma allocationFor_small:
  assumes "0 \<le> res" "res < 2 ^ 30"
  shows "allocationFor res = 2 * res"
  unfolding allocationFor_def using assms by (simp add: int32_id push_bit_eq_mult)

lemma setResolution_small:
  assumes "0 < res" "res < 2 ^ 30"
  shows "setResolution l res =
    Inr \<lparr>levels = int (ceillog2 (nat res)) + 1, data = replicate (nat (2 * res)) 0\<rparr>"
proof -
  have a: "allocationFor res = 2 * res"
    using assms by (simp add: allocationFor_small)
  have s: "size_t (2 * res) = nat (2 * res)"
    using assms by (intro size_t_id) simp_all
  have m: "\<not> nat (2 * res) > max_size"
    using assms unfolding max_size_def by simp
  show ?thesis
    unfolding setResolution_def Let_def a s initialize_def resize_def
    using assms m by simp
qed

lemma resolution_length:
  assumes "length (data l) = nat (2 * r)" "0 \<le> r" "r < 2 ^ 30"
  shows "resolution l = r"
  unfolding resolution_def resolutionFor_def allocation_def
  using assms by (simp add: int32_id drop_bit_eq_div)

section \<open>The single-bin updates, level by level\<close>

declare propagate.simps [simp del]
declare setValueMax_loop.simps [simp del]
declare setValueMean_loop.simps [simp del]

lemma setValueMax_loop_propagate:
  "setValueMax_loop p res l index val d = propagate (\<lambda>j x. max val x) p res l index d"
proof (induction p res l index val d rule: setValueMax_loop.induct)
  case (1 p res l index val d)
  show ?case
  proof (cases "l > 0 \<and> size_t (p + index) < length d")
    case True
    then show ?thesis
      using 1 [OF _ refl] 
      by (subst setValueMax_loop.simps, subst propagate.simps) (simp add: Let_def)
  next
    case False
    then show ?thesis
      by (subst setValueMax_loop.simps, subst propagate.simps) (auto simp add: Let_def)
  qed
qed

lemma setValueMean_loop_propagate:
  "setValueMean_loop fadd fmul p res l index val k d =
     propagate (\<lambda>j x. fadd x (fmul (weight fmul k j) val)) p res l index d"
proof (induction fadd fmul p res l index val k d rule: setValueMean_loop.induct)
  case (1 fadd fmul p res l index val k d)
  show ?case
  proof (cases "l > 0 \<and> size_t (p + index) < length d")
    case True
    then show ?thesis
      using 1 [OF _ refl]
      by (subst setValueMean_loop.simps, subst propagate.simps) (simp add: Let_def)
  next
    case False
    then show ?thesis
      by (subst setValueMean_loop.simps, subst propagate.simps) (auto simp add: Let_def)
  qed
qed

lemma propagate_effect:
  fixes p n :: nat
  assumes "0 \<le> index" "index < 2 ^ n" "p + 2 * 2 ^ n \<le> length d + 1" "length d < 2 ^ 64"
  shows "\<exists>d'. propagate f (int p) (2 ^ n) (int (Suc n)) index d = Inr d'
           \<and> length d' = length d
           \<and> (\<forall>pos < p. d' ! pos = d ! pos)
           \<and> (\<forall>pos < length d. p + 2 * 2 ^ n \<le> pos + 1 \<longrightarrow> d' ! pos = d ! pos)
           \<and> (\<forall>k \<le> n. \<forall>i < 2 ^ (n - k).
                 d' ! (p + level_offset (2 ^ n) k + i) =
                   (if i = nat index div 2 ^ k
                    then f k (d ! (p + level_offset (2 ^ n) k + i))
                    else d ! (p + level_offset (2 ^ n) k + i)))"
  using assms
proof (induction n arbitrary: p index d f)
  case 0
  then have idx: "index = 0" by simp
  from 0 have pl: "p < length d" by simp
  have st: "size_t (int p) = p"
    using pl 0 by (simp add: size_t_id)
  have "propagate f (int p) (2 ^ 0) (int (Suc 0)) index d = Inr (d[p := f 0 (d ! p)])"
    using pl by (simp add: propagate.simps [of _ _ _ 1] propagate.simps [of _ _ _ 0] idx st)
  then show ?case
    using pl by (auto simp add: idx)
next
  case (Suc n)
  let ?i = "p + nat index"
  let ?d1 = "d[?i := f 0 (d ! ?i)]"
  let ?p' = "p + 2 ^ Suc n"
  let ?f' = "\<lambda>j. f (Suc j)"
  have ni: "nat index < 2 ^ Suc n"
    using Suc.prems(1,2) by (simp add: nat_less_iff)
  have pw: "(1::nat) \<le> 2 ^ n" by simp
  have il: "?i < length d"
    using ni pw Suc.prems(3) by simp
  have st: "size_t (int p + index) = ?i"
    using il Suc.prems by (simp add: size_t_id nat_add_distrib)
  have step: "propagate f (int p) (2 ^ Suc n) (int (Suc (Suc n))) index d =
      propagate ?f' (int ?p') (2 ^ n) (int (Suc n)) (index div 2) ?d1"
    using il by (subst propagate.simps) (simp add: st Let_def drop_bit_eq_div)
  have "\<exists>d'. propagate ?f' (int ?p') (2 ^ n) (int (Suc n)) (index div 2) ?d1 = Inr d'
           \<and> length d' = length ?d1
           \<and> (\<forall>pos < ?p'. d' ! pos = ?d1 ! pos)
           \<and> (\<forall>pos < length ?d1. ?p' + 2 * 2 ^ n \<le> pos + 1 \<longrightarrow> d' ! pos = ?d1 ! pos)
           \<and> (\<forall>k \<le> n. \<forall>i < 2 ^ (n - k).
                 d' ! (?p' + level_offset (2 ^ n) k + i) =
                   (if i = nat (index div 2) div 2 ^ k
                    then ?f' k (?d1 ! (?p' + level_offset (2 ^ n) k + i))
                    else ?d1 ! (?p' + level_offset (2 ^ n) k + i)))"
    using Suc.prems by (intro Suc.IH) simp_all
  then obtain d' where
    r: "propagate ?f' (int ?p') (2 ^ n) (int (Suc n)) (index div 2) ?d1 = Inr d'"
    and len: "length d' = length d"
    and before: "\<And>pos. pos < ?p' \<Longrightarrow> d' ! pos = ?d1 ! pos"
    and after: "\<And>pos. pos < length d \<Longrightarrow> ?p' + 2 * 2 ^ n \<le> pos + 1 \<Longrightarrow> d' ! pos = ?d1 ! pos"
    and lev: "\<And>k i. k \<le> n \<Longrightarrow> i < 2 ^ (n - k) \<Longrightarrow>
                 d' ! (?p' + level_offset (2 ^ n) k + i) =
                   (if i = nat (index div 2) div 2 ^ k
                    then f (Suc k) (?d1 ! (?p' + level_offset (2 ^ n) k + i))
                    else ?d1 ! (?p' + level_offset (2 ^ n) k + i))"
    by auto
  have ilt: "?i < ?p'"
    using ni by simp
  have c1: "\<forall>pos < p. d' ! pos = d ! pos"
    using before by simp
  have c2: "\<forall>pos < length d. p + 2 * 2 ^ Suc n \<le> pos + 1 \<longrightarrow> d' ! pos = d ! pos"
    using after ilt by simp
  have c3: "d' ! (p + level_offset (2 ^ Suc n) k + i) =
                   (if i = nat index div 2 ^ k
                    then f k (d ! (p + level_offset (2 ^ Suc n) k + i))
                    else d ! (p + level_offset (2 ^ Suc n) k + i))"
    if k: "k \<le> Suc n" and i: "i < 2 ^ (Suc n - k)" for k i
  proof (cases k)
    case 0
    then have "p + i < ?p'" using i by simp
    then have "d' ! (p + i) = ?d1 ! (p + i)" by (rule before)
    then show ?thesis
      using 0 il by (simp add: nth_list_update)
  next
    case (Suc k')
    then have k': "k' \<le> n" and i': "i < 2 ^ (n - k')"
      using k i by simp_all
    have dv: "nat (index div 2) div 2 ^ k' = nat index div 2 ^ k"
      using Suc.prems(1) by (simp add: Suc nat_div_distrib div_mult2_eq)
    have ne: "?p' + level_offset (2 ^ n) k' + i \<noteq> ?i"
      using ilt by simp
    show ?thesis
      using lev [OF k' i'] ne by (simp add: Suc dv add.assoc)
  qed
  show ?case
    unfolding step using r len c1 c2 c3 by simp
qed

lemma int32_less: "int32 x < 2 ^ 31"
proof -
  have "(x + 2 ^ 31) mod 2 ^ 32 < (2 ^ 32 :: int)"
    by (rule pos_mod_bound) simp
  then show ?thesis
    unfolding int32_def by simp
qed

lemma resolution_less: "resolution l < 2 ^ 30"
  using int32_less [of "int (length (data l))"]
  unfolding resolution_def resolutionFor_def allocation_def
  by (simp add: drop_bit_eq_div)

lemma wf_lineE:
  assumes "wf_line l r"
  obtains n where "r = 2 ^ n" "n < 30" "nat r = 2 ^ n" "levels l = int (Suc n)"
    "resolution l = 2 ^ n" "length (data l) = 2 * 2 ^ n"
proof -
  from assms obtain n where r: "r = 2 ^ n"
    unfolding wf_line_def is_pow2_iff by blast
  have nr: "nat r = 2 ^ n"
    unfolding r by (simp add: nat_power_eq)
  from assms have res: "resolution l = 2 ^ n"
    unfolding wf_line_def r by simp
  have "(2::int) ^ n < 2 ^ 30"
    using resolution_less [of l] unfolding res .
  then have n: "n < 30"
    by (rule power_less_imp_less_exp [rotated]) simp
  from assms have lv: "levels l = int (Suc n)"
    unfolding wf_line_def nr by simp
  from assms have len: "length (data l) = 2 * 2 ^ n"
    unfolding wf_line_def r by (simp add: nat_mult_distrib nat_power_eq)
  from r n nr lv res len show ?thesis
    by (rule that)
qed

lemma wf_line_data:
  assumes "wf_line l r" "length d = length (data l)"
  shows "wf_line (l\<lparr>data := d\<rparr>) r"
proof -
  have "resolution (l\<lparr>data := d\<rparr>) = resolution l"
    unfolding resolution_def allocation_def using assms(2) by simp
  then show ?thesis
    using assms unfolding wf_line_def by simp
qed

lemma level_offset_pow2:
  "k \<le> n \<Longrightarrow> level_offset (2 ^ n) k + 2 * 2 ^ (n - k) = 2 * 2 ^ n"
proof (induction k arbitrary: n)
  case 0
  then show ?case by simp
next
  case (Suc k)
  then obtain n' where n: "n = Suc n'"
    by (cases n) simp_all
  with Suc.prems have "k \<le> n'" by simp
  then have "level_offset (2 ^ n') k + 2 * 2 ^ (n' - k) = 2 * 2 ^ n'"
    by (rule Suc.IH)
  then show ?case
    unfolding n by simp
qed

lemma level_cover:
  "pos + 1 < 2 * 2 ^ n \<Longrightarrow> \<exists>k \<le> n. \<exists>i < 2 ^ (n - k). pos = level_offset (2 ^ n) k + i"
proof (induction n arbitrary: pos)
  case 0
  then have "pos = 0" by simp
  then show ?case by simp
next
  case (Suc n)
  show ?case
  proof (cases "pos < 2 ^ Suc n")
    case True
    have "pos < 2 ^ (Suc n - 0) \<and> pos = level_offset (2 ^ Suc n) 0 + pos"
      using True by simp
    then have "\<exists>i < 2 ^ (Suc n - 0). pos = level_offset (2 ^ Suc n) 0 + i"
      by (rule exI)
    then have "0 \<le> Suc n \<and> (\<exists>i < 2 ^ (Suc n - 0). pos = level_offset (2 ^ Suc n) 0 + i)"
      by simp
    then show ?thesis
      by (rule exI)
  next
    case False
    then have "pos - 2 ^ Suc n + 1 < 2 * 2 ^ n"
      using Suc.prems by simp
    then have "\<exists>k \<le> n. \<exists>i < 2 ^ (n - k). pos - 2 ^ Suc n = level_offset (2 ^ n) k + i"
      by (rule Suc.IH)
    then obtain k i where k: "k \<le> n" and i: "i < 2 ^ (n - k)"
      and e: "pos - 2 ^ Suc n = level_offset (2 ^ n) k + i"
      by auto
    have "i < 2 ^ (Suc n - Suc k) \<and> pos = level_offset (2 ^ Suc n) (Suc k) + i"
      using i e False by simp
    then have "\<exists>i < 2 ^ (Suc n - Suc k). pos = level_offset (2 ^ Suc n) (Suc k) + i"
      by (rule exI)
    with k have "Suc k \<le> Suc n
        \<and> (\<exists>i < 2 ^ (Suc n - Suc k). pos = level_offset (2 ^ Suc n) (Suc k) + i)"
      by simp
    then show ?thesis
      by (rule exI)
  qed
qed

lemma line_effect:
  assumes "wf_line l r" "0 \<le> index" "index < r"
  shows "\<exists>d'. propagate f 0 (resolution l) (levels l) index (data l) = Inr d'
           \<and> length d' = length (data l)
           \<and> d' ! (nat (2 * r) - 1) = data l ! (nat (2 * r) - 1)
           \<and> (\<forall>k < nat (levels l). \<forall>i < nat r div 2 ^ k.
                 d' ! (level_offset (nat r) k + i) =
                   (if i = nat index div 2 ^ k
                    then f k (data l ! (level_offset (nat r) k + i))
                    else data l ! (level_offset (nat r) k + i)))"
proof -
  from assms(1) obtain n where n: "r = 2 ^ n" "n < 30" "nat r = 2 ^ n" "levels l = int (Suc n)"
    "resolution l = 2 ^ n" "length (data l) = 2 * 2 ^ n"
    by (rule wf_lineE)
  have "(2::nat) ^ n < 2 ^ 30"
    using n(2) by (intro power_strict_increasing) simp_all
  then have small: "length (data l) < 2 ^ 64"
    unfolding n(6) by simp
  have "\<exists>d'. propagate f (int 0) (2 ^ n) (int (Suc n)) index (data l) = Inr d'
           \<and> length d' = length (data l)
           \<and> (\<forall>pos < 0. d' ! pos = data l ! pos)
           \<and> (\<forall>pos < length (data l). 0 + 2 * 2 ^ n \<le> pos + 1 \<longrightarrow> d' ! pos = data l ! pos)
           \<and> (\<forall>k \<le> n. \<forall>i < 2 ^ (n - k).
                 d' ! (0 + level_offset (2 ^ n) k + i) =
                   (if i = nat index div 2 ^ k
                    then f k (data l ! (0 + level_offset (2 ^ n) k + i))
                    else data l ! (0 + level_offset (2 ^ n) k + i)))"
    using assms(2,3) small unfolding n(1) by (intro propagate_effect) (simp_all add: n(6))
  then obtain d' where
    r: "propagate f 0 (2 ^ n) (int (Suc n)) index (data l) = Inr d'"
    and len: "length d' = length (data l)"
    and after: "\<And>pos. pos < length (data l) \<Longrightarrow> 2 * 2 ^ n \<le> pos + 1 \<Longrightarrow> d' ! pos = data l ! pos"
    and lev: "\<And>k i. k \<le> n \<Longrightarrow> i < 2 ^ (n - k) \<Longrightarrow>
                 d' ! (level_offset (2 ^ n) k + i) =
                   (if i = nat index div 2 ^ k
                    then f k (data l ! (level_offset (2 ^ n) k + i))
                    else data l ! (level_offset (2 ^ n) k + i))"
    by auto
  have last: "d' ! (nat (2 * r) - 1) = data l ! (nat (2 * r) - 1)"
  proof -
    have "nat (2 * r) = 2 * 2 ^ n"
      unfolding n(1) by (simp add: nat_mult_distrib nat_power_eq)
    then show ?thesis
      using after [of "2 * 2 ^ n - 1"] n(6) by simp
  qed
  have bins: "d' ! (level_offset (nat r) k + i) =
                   (if i = nat index div 2 ^ k
                    then f k (data l ! (level_offset (nat r) k + i))
                    else data l ! (level_offset (nat r) k + i))"
    if "k < nat (levels l)" "i < nat r div 2 ^ k" for k i
  proof -
    from that(1) have k: "k \<le> n"
      unfolding n(4) by simp
    then have "(2::nat) ^ n div 2 ^ k = 2 ^ (n - k)"
      by (simp add: power_diff)
    with that(2) have "i < 2 ^ (n - k)"
      unfolding n(3) by simp
    with k show ?thesis
      unfolding n(3) by (rule lev)
  qed
  show ?thesis
    using r len last bins unfolding n(4,5) by simp
qed

lemma nat_drop_bit: "0 \<le> index \<Longrightarrow> nat (drop_bit k index) = nat index div 2 ^ k"
  by (simp add: drop_bit_eq_div nat_div_distrib nat_power_eq)

lemma line_frame:
  assumes "wf_line l r" "0 \<le> index" "index < r"
    and "propagate f 0 (resolution l) (levels l) index (data l) = Inr d'"
    and "pos < length (data l)" "pos \<notin> ancestor l index ` {..<nat (levels l)}"
  shows "d' ! pos = data l ! pos"
proof -
  from assms(1) obtain n where n: "r = 2 ^ n" "n < 30" "nat r = 2 ^ n" "levels l = int (Suc n)"
    "resolution l = 2 ^ n" "length (data l) = 2 * 2 ^ n"
    by (rule wf_lineE)
  have nr2: "nat (2 * r) = 2 * 2 ^ n"
    unfolding n(1) by (simp add: nat_mult_distrib nat_power_eq)
  from line_effect [OF assms(1-3), of f] assms(4)
  have last: "d' ! (nat (2 * r) - 1) = data l ! (nat (2 * r) - 1)"
    and bins: "\<And>k i. k < nat (levels l) \<Longrightarrow> i < nat r div 2 ^ k \<Longrightarrow>
                 d' ! (level_offset (nat r) k + i) =
                   (if i = nat index div 2 ^ k
                    then f k (data l ! (level_offset (nat r) k + i))
                    else data l ! (level_offset (nat r) k + i))"
    by auto
  show ?thesis
  proof (cases "pos + 1 < 2 * 2 ^ n")
    case False
    with assms(5) have "pos = nat (2 * r) - 1"
      unfolding n(6) nr2 by simp
    then show ?thesis
      using last by simp
  next
    case True
    then obtain k i where k: "k \<le> n" and i: "i < 2 ^ (n - k)"
      and pos: "pos = level_offset (2 ^ n) k + i"
      using level_cover [of pos n] by auto
    have kl: "k < nat (levels l)"
      using k unfolding n(4) by simp
    have "(2::nat) ^ n div 2 ^ k = 2 ^ (n - k)"
      using k by (simp add: power_diff)
    then have ir: "i < nat r div 2 ^ k"
      using i unfolding n(3) by simp
    have "i \<noteq> nat index div 2 ^ k"
    proof
      assume "i = nat index div 2 ^ k"
      then have "pos = ancestor l index k"
        unfolding ancestor_def pos n(5) using assms(2)
        by (simp add: nat_drop_bit nat_power_eq)
      with kl assms(6) show False
        by blast
    qed
    then show ?thesis
      using bins [OF kl ir] unfolding pos n(3) by simp
  qed
qed

lemma setValueMax_propagate:
  "setValueMax l index val =
     (case propagate (\<lambda>j x. max val x) 0 (resolution l) (levels l) index (data l) of
        Inl e \<Rightarrow> Inl e
      | Inr d \<Rightarrow> Inr (l\<lparr>data := d\<rparr>))"
  unfolding setValueMax_def setValueMax_loop_propagate ..

lemma setValueMean_propagate:
  "setValueMean fadd fmul l index val =
     (case propagate (\<lambda>j x. fadd x (fmul (weight fmul 1 j) val)) 0 (resolution l) (levels l)
             index (data l) of
        Inl e \<Rightarrow> Inl e
      | Inr d \<Rightarrow> Inr (l\<lparr>data := d\<rparr>))"
  unfolding setValueMean_def setValueMean_loop_propagate ..

lemma bin_data:
  assumes "length d = length (data l)"
  shows "bin (l\<lparr>data := d\<rparr>) k i = d ! (level_offset (nat (resolution l)) k + i)"
  unfolding bin_def resolution_def allocation_def using assms by simp

text \<open>What a single-bin update does, for any per-level update \<open>f\<close>.\<close>

lemma update_bins:
  assumes wf: "wf_line l r" and i0: "0 \<le> index" and i1: "index < r"
    and op: "\<And>l. op l = (case propagate f 0 (resolution l) (levels l) index (data l) of
        Inl e \<Rightarrow> Inl e | Inr d \<Rightarrow> Inr (l\<lparr>data := d\<rparr>))"
  shows "\<exists>l'. op l = Inr l' \<and> wf_line l' r \<and> levels l' = levels l
           \<and> length (data l') = length (data l)
           \<and> data l' ! (nat (2 * r) - 1) = data l ! (nat (2 * r) - 1)
           \<and> (\<forall>pos < length (data l). pos \<notin> ancestor l index ` {..<nat (levels l)}
                 \<longrightarrow> data l' ! pos = data l ! pos)
           \<and> (\<forall>k < nat (levels l). \<forall>i < nat r div 2 ^ k.
                 bin l' k i = (if i = nat index div 2 ^ k then f k (bin l k i) else bin l k i))"
proof -
  from line_effect [OF wf i0 i1, of f] obtain d' where
    r: "propagate f 0 (resolution l) (levels l) index (data l) = Inr d'"
    and len: "length d' = length (data l)"
    and last: "d' ! (nat (2 * r) - 1) = data l ! (nat (2 * r) - 1)"
    and bins: "\<And>k i. k < nat (levels l) \<Longrightarrow> i < nat r div 2 ^ k \<Longrightarrow>
                 d' ! (level_offset (nat r) k + i) =
                   (if i = nat index div 2 ^ k
                    then f k (data l ! (level_offset (nat r) k + i))
                    else data l ! (level_offset (nat r) k + i))"
    by auto
  let ?l' = "l\<lparr>data := d'\<rparr>"
  have res: "resolution l = r"
    using wf unfolding wf_line_def by simp
  have e: "op l = Inr ?l'"
    unfolding op r by simp
  have w: "wf_line ?l' r"
    using wf len by (rule wf_line_data)
  have fr: "\<forall>pos < length (data l). pos \<notin> ancestor l index ` {..<nat (levels l)}
                 \<longrightarrow> data ?l' ! pos = data l ! pos"
    using line_frame [OF wf i0 i1 r] by simp
  have b: "\<forall>k < nat (levels l). \<forall>i < nat r div 2 ^ k.
                 bin ?l' k i = (if i = nat index div 2 ^ k then f k (bin l k i) else bin l k i)"
  proof (intro allI impI)
    fix k i
    assume k: "k < nat (levels l)" and i: "i < nat r div 2 ^ k"
    have n: "bin ?l' k i = d' ! (level_offset (nat r) k + i)"
      using bin_data [OF len, of k i] unfolding res .
    have o: "bin l k i = data l ! (level_offset (nat r) k + i)"
      unfolding bin_def res ..
    show "bin ?l' k i = (if i = nat index div 2 ^ k then f k (bin l k i) else bin l k i)"
      unfolding n o using k i by (rule bins)
  qed
  show ?thesis
    using e w len last fr b by simp
qed

lemma setValueMax_bins:
  assumes "wf_line l r" "0 \<le> index" "index < r"
  shows "\<exists>l'. setValueMax l index val = Inr l' \<and> wf_line l' r \<and> levels l' = levels l
           \<and> length (data l') = length (data l)
           \<and> data l' ! (nat (2 * r) - 1) = data l ! (nat (2 * r) - 1)
           \<and> (\<forall>pos < length (data l). pos \<notin> ancestor l index ` {..<nat (levels l)}
                 \<longrightarrow> data l' ! pos = data l ! pos)
           \<and> (\<forall>k < nat (levels l). \<forall>i < nat r div 2 ^ k.
                 bin l' k i = (if i = nat index div 2 ^ k then max val (bin l k i) else bin l k i))"
  using assms
  by (rule update_bins [where op = "\<lambda>l. setValueMax l index val" and f = "\<lambda>j x. max val x"])
    (rule setValueMax_propagate)

lemma setValueMean_bins:
  assumes "wf_line l r" "0 \<le> index" "index < r"
  shows "\<exists>l'. setValueMean fadd fmul l index val = Inr l' \<and> wf_line l' r
           \<and> levels l' = levels l
           \<and> length (data l') = length (data l)
           \<and> data l' ! (nat (2 * r) - 1) = data l ! (nat (2 * r) - 1)
           \<and> (\<forall>pos < length (data l). pos \<notin> ancestor l index ` {..<nat (levels l)}
                 \<longrightarrow> data l' ! pos = data l ! pos)
           \<and> (\<forall>k < nat (levels l). \<forall>i < nat r div 2 ^ k.
                 bin l' k i =
                   (if i = nat index div 2 ^ k
                    then fadd (bin l k i) (fmul (weight fmul 1 k) val) else bin l k i))"
  using assms
  by (rule update_bins [where op = "\<lambda>l. setValueMean fadd fmul l index val"
        and f = "\<lambda>j x. fadd x (fmul (weight fmul 1 j) val)"])
    (rule setValueMean_propagate)

lemma ancestor_pow2:
  assumes "wf_line l r" "0 \<le> index"
  shows "ancestor l index k = level_offset (nat r) k + nat index div 2 ^ k"
  using assms unfolding ancestor_def wf_line_def by (simp add: nat_drop_bit)

lemma ancestor_range:
  fixes n k :: nat
  assumes "k \<le> n" "j < 2 ^ n"
  shows "level_offset (2 ^ n) k + j div 2 ^ k + 2 ^ (n - k) < 2 * 2 ^ n"
proof -
  have "(2::nat) ^ n = 2 ^ (n - k) * 2 ^ k"
    using assms(1) by (simp flip: power_add)
  with assms(2) have "j div 2 ^ k < 2 ^ (n - k)"
    by (simp add: less_mult_imp_div_less)
  then show ?thesis
    using level_offset_pow2 [OF assms(1)] by simp
qed

lemma ancestor_less:
  fixes n k k' :: nat
  assumes "k < k'" "k' \<le> n" "j < 2 ^ n"
  shows "level_offset (2 ^ n) k + j div 2 ^ k < level_offset (2 ^ n) k' + j div 2 ^ k'"
proof -
  from assms have k: "k \<le> n" by simp
  have "Suc (n - k') \<le> n - k"
    using assms(1,2) by simp
  then have "(2::nat) ^ Suc (n - k') \<le> 2 ^ (n - k)"
    by (rule power_increasing) simp
  then have "2 * (2::nat) ^ (n - k') \<le> 2 ^ (n - k)"
    by simp
  then show ?thesis
    using ancestor_range [OF k assms(3)] level_offset_pow2 [OF assms(2)] by simp
qed

lemma ancestors:
  assumes "wf_line l r" "0 \<le> index" "index < r"
  shows "inj_on (ancestor l index) {..<nat (levels l)}"
    and "\<forall>k < nat (levels l). ancestor l index k < nat (2 * r) - 1"
proof -
  from assms(1) obtain n where n: "r = 2 ^ n" "n < 30" "nat r = 2 ^ n" "levels l = int (Suc n)"
    "resolution l = 2 ^ n" "length (data l) = 2 * 2 ^ n"
    by (rule wf_lineE)
  have j: "nat index < 2 ^ n"
    using assms(2,3) unfolding n(1) by (simp add: nat_less_iff)
  have a: "ancestor l index k = level_offset (2 ^ n) k + nat index div 2 ^ k" for k
    using ancestor_pow2 [OF assms(1,2)] unfolding n(3) .
  show "inj_on (ancestor l index) {..<nat (levels l)}"
  proof (rule linorder_inj_onI)
    fix k k'
    assume "k < k'" "k' \<in> {..<nat (levels l)}"
    then have "k < k'" "k' \<le> n"
      unfolding n(4) by simp_all
    then have "ancestor l index k < ancestor l index k'"
      unfolding a using j by (rule ancestor_less)
    then show "ancestor l index k \<noteq> ancestor l index k'"
      by simp
  qed (rule linear)
  have nr2: "nat (2 * r) = 2 * 2 ^ n"
    unfolding n(1) by (simp add: nat_mult_distrib nat_power_eq)
  show "\<forall>k < nat (levels l). ancestor l index k < nat (2 * r) - 1"
  proof (intro allI impI)
    fix k
    assume "k < nat (levels l)"
    then have k: "k \<le> n"
      unfolding n(4) by simp
    have "(1::nat) \<le> 2 ^ (n - k)"
      by simp
    then show "ancestor l index k < nat (2 * r) - 1"
      unfolding a nr2 using ancestor_range [OF k j] by linarith
  qed
qed

lemma index_bin:
  assumes "wf_line l r" "0 \<le> index" "index < r" "k < nat (levels l)"
  shows "nat index div 2 ^ k < nat r div 2 ^ k"
proof -
  from assms(1) obtain n where n: "r = 2 ^ n" "n < 30" "nat r = 2 ^ n" "levels l = int (Suc n)"
    "resolution l = 2 ^ n" "length (data l) = 2 * 2 ^ n"
    by (rule wf_lineE)
  from assms(4) have k: "k \<le> n"
    unfolding n(4) by simp
  have j: "nat index < 2 ^ n"
    using assms(2,3) unfolding n(1) by (simp add: nat_less_iff)
  have e: "(2::nat) ^ n = 2 ^ (n - k) * 2 ^ k"
    using k by (simp flip: power_add)
  with j have "nat index div 2 ^ k < 2 ^ (n - k)"
    by (simp add: less_mult_imp_div_less)
  then show ?thesis
    unfolding n(3) using k by (simp add: power_diff)
qed

lemma apply_update_padding:
  assumes "wf_line l r" "0 \<le> update_index u" "update_index u < r"
  shows "\<exists>l'. apply_update fadd fmul l u = Inr l' \<and> wf_line l' r
           \<and> data l' ! (nat (2 * r) - 1) = data l ! (nat (2 * r) - 1)"
proof (cases u)
  case (SetValueMax index val)
  then show ?thesis
    using setValueMax_bins [OF assms(1), of index val] assms(2,3) by auto
next
  case (SetValueMean index val)
  then show ?thesis
    using setValueMean_bins [OF assms(1), of index fadd fmul val] assms(2,3) by auto
qed

lemma apply_updates_padding:
  assumes "wf_line l r" "\<forall>u \<in> set us. 0 \<le> update_index u \<and> update_index u < r"
  shows "\<exists>l'. apply_updates fadd fmul l us = Inr l' \<and> wf_line l' r
           \<and> data l' ! (nat (2 * r) - 1) = data l ! (nat (2 * r) - 1)"
  using assms
proof (induction us arbitrary: l)
  case Nil
  then show ?case by simp
next
  case (Cons u us)
  then have "0 \<le> update_index u" "update_index u < r"
    by simp_all
  with Cons.prems(1) obtain l1 where
    s: "apply_update fadd fmul l u = Inr l1" and w: "wf_line l1 r"
    and p: "data l1 ! (nat (2 * r) - 1) = data l ! (nat (2 * r) - 1)"
    using apply_update_padding by blast
  from Cons.prems(2) have "\<forall>u \<in> set us. 0 \<le> update_index u \<and> update_index u < r"
    by simp
  with w obtain l' where "apply_updates fadd fmul l1 us = Inr l'" "wf_line l' r"
    "data l' ! (nat (2 * r) - 1) = data l1 ! (nat (2 * r) - 1)"
    using Cons.IH by blast
  then show ?case
    using s p by simp
qed

lemma max_insert:
  fixes val a b :: real
  shows "max val (max a b) = max (max val a) b" "max val (max a b) = max a (max val b)"
  by (simp_all add: max_def)

lemma not_pow2_3: "\<not> is_pow2 3"
proof -
  have "ceillog2 3 = 2"
    by (rule ceillog2_eqI) simp_all
  then show ?thesis
    unfolding is_pow2_def by simp
qed

section \<open>The texture ring\<close>

lemma commit_step:
  assumes "m_waterfall c = Some t" "length t = nat (m_rowCount c)"
    "0 \<le> m_row c" "m_row c < m_rowCount c"
  shows "commit line c =
    Inr (c\<lparr>m_waterfall := Some (t[nat (m_row c) := line]),
          m_row := (m_row c + 1) mod m_rowCount c\<rparr>)"
  using assms unfolding commit_def by auto

lemma commits_run:
  assumes "m_waterfall c = Some t" "length t = nat (m_rowCount c)"
    "0 \<le> m_row c" "m_row c < m_rowCount c"
  shows "\<exists>c' t'. commits lines c = Inr c' \<and> m_rowCount c' = m_rowCount c
           \<and> m_waterfall c' = Some t' \<and> length t' = length t
           \<and> m_row c' = (m_row c + int (length lines)) mod m_rowCount c"
  using assms
proof (induction lines arbitrary: c t)
  case Nil
  then show ?case by simp
next
  case (Cons line lines)
  let ?c1 = "c\<lparr>m_waterfall := Some (t[nat (m_row c) := line]),
          m_row := (m_row c + 1) mod m_rowCount c\<rparr>"
  have s: "commit line c = Inr ?c1"
    using Cons.prems by (rule commit_step)
  have pos: "0 < m_rowCount c"
    using Cons.prems(3,4) by simp
  have "\<exists>c' t'. commits lines ?c1 = Inr c' \<and> m_rowCount c' = m_rowCount ?c1
           \<and> m_waterfall c' = Some t' \<and> length t' = length (t[nat (m_row c) := line])
           \<and> m_row c' = (m_row ?c1 + int (length lines)) mod m_rowCount ?c1"
    using Cons.prems(2) pos by (intro Cons.IH) simp_all
  then obtain c' t' where r: "commits lines ?c1 = Inr c'" "m_rowCount c' = m_rowCount c"
    "m_waterfall c' = Some t'" "length t' = length t"
    "m_row c' = ((m_row c + 1) mod m_rowCount c + int (length lines)) mod m_rowCount c"
    by auto
  have "((m_row c + 1) mod m_rowCount c + int (length lines)) mod m_rowCount c
      = (m_row c + int (length (line # lines))) mod m_rowCount c"
    by (simp add: mod_add_left_eq add.assoc)
  then show ?case
    using s r by simp
qed

section \<open>binary32 arithmetic\<close>

lemma round_even_int: "round_even (real_of_int z) = z"
  unfolding round_even_def by simp

lemma pow2_neg: "pow2 (- int k) = 1 / 2 ^ k"
  by (auto simp add: pow2_def)

lemma pow2_pos: "0 < pow2 q"
  unfolding pow2_def by simp

lemma float32_exact:
  assumes "x \<noteq> 0" "\<lfloor>log 2 \<bar>x\<bar>\<rfloor> = e" "x / pow2 (max e (- 126) - 23) = real_of_int z"
  shows "float32 x = x"
proof -
  let ?u = "pow2 (max e (- 126) - 23)"
  have u: "?u \<noteq> 0"
    using pow2_pos [of "max e (- 126) - 23"] by simp
  have "float32 x = real_of_int (round_even (x / ?u)) * ?u"
    unfolding float32_def Let_def using assms(1,2) by simp
  also have "\<dots> = x / ?u * ?u"
    unfolding assms(3) round_even_int ..
  also have "\<dots> = x"
    using u by simp
  finally show ?thesis .
qed

text \<open>Powers of one half down to the smallest normal float are floats.\<close>

lemma float32_half_power:
  assumes "j \<le> 126"
  shows "float32 ((1 / 2) ^ j) = (1 / 2) ^ j"
proof (rule float32_exact)
  show "(1 / 2 :: real) ^ j \<noteq> 0"
    by simp
  have ab: "\<bar>(1 / 2 :: real) ^ j\<bar> = (1 / 2) ^ j"
    by simp
  have lg: "log 2 ((1 / 2) ^ j) = real_of_int (- int j)"
    by (simp add: log_nat_power log_divide)
  show "\<lfloor>log 2 \<bar>(1 / 2 :: real) ^ j\<bar>\<rfloor> = - int j"
    unfolding ab lg by (rule floor_of_int)
  have m: "max (- int j) (- 126) - 23 = - int (j + 23)"
    using assms by simp
  have "(1 / 2 :: real) ^ j * 2 ^ j = 1"
    by (simp add: power_one_over)
  then have "(1 / 2 :: real) ^ j / pow2 (- int (j + 23)) = 2 ^ 23"
    unfolding pow2_neg by (simp add: power_add)
  then show "(1 / 2 :: real) ^ j / pow2 (max (- int j) (- 126) - 23) = real_of_int (2 ^ 23)"
    unfolding m by simp
qed

text \<open>Integers of fewer than 25 bits are floats.\<close>

lemma float32_int:
  assumes "\<bar>n\<bar> < 2 ^ 24"
  shows "float32 (real_of_int n) = real_of_int n"
proof (cases "n = 0")
  case True
  then show ?thesis
    by (simp add: float32_def)
next
  case False
  define e where "e = \<lfloor>log 2 \<bar>real_of_int n\<bar>\<rfloor>"
  have a1: "1 \<le> \<bar>real_of_int n\<bar>"
    using False by (simp flip: of_int_abs)
  have a2: "\<bar>real_of_int n\<bar> < 2 powr 24"
    using assms by (simp flip: of_int_abs)
  have "0 \<le> log 2 \<bar>real_of_int n\<bar>"
    using a1 by simp
  then have e0: "0 \<le> e"
    unfolding e_def by simp
  have "log 2 \<bar>real_of_int n\<bar> < 24"
    using a1 a2 by (subst log_less_iff) simp_all
  then have "e < 24"
    unfolding e_def by (simp add: floor_less_iff)
  then have k: "max e (- 126) - 23 = - int (nat (23 - e))"
    using e0 by simp
  show ?thesis
  proof (rule float32_exact [where e = e])
    show "real_of_int n \<noteq> 0"
      using False by simp
    show "\<lfloor>log 2 \<bar>real_of_int n\<bar>\<rfloor> = e"
      unfolding e_def ..
    show "real_of_int n / pow2 (max e (- 126) - 23) = real_of_int (n * 2 ^ nat (23 - e))"
      unfolding k pow2_neg by simp
  qed
qed

lemma float32_numeral:
  "\<bar>numeral w :: int\<bar> < 2 ^ 24 \<Longrightarrow> float32 (numeral w) = numeral w"
  using float32_int [of "numeral w"] by simp

lemma float32_one: "float32 1 = 1"
  using float32_int [of 1] by simp

lemma float32_half: "float32 (1 / 2) = 1 / 2"
  using float32_half_power [of 1] by simp

lemma float32_16777217: "float32 16777217 = 16777216"
proof -
  have l: "\<lfloor>log 2 \<bar>16777217 :: real\<bar>\<rfloor> = 24"
    by (subst floor_log_eq_powr_iff) simp_all
  have r: "round_even (16777217 / 2) = 8388608"
    unfolding round_even_def by simp
  show ?thesis
    unfolding float32_def Let_def l by (simp add: pow2_def r)
qed

lemma float32_33554433_half: "float32 (33554433 / 2) = 16777216"
proof -
  have l: "\<lfloor>log 2 \<bar>33554433 / 2 :: real\<bar>\<rfloor> = 24"
    by (subst floor_log_eq_powr_iff) simp_all
  have r: "round_even (33554433 / 4) = 8388608"
    unfolding round_even_def by simp
  show ?thesis
    unfolding float32_def Let_def l by (simp add: pow2_def r)
qed

text \<open>Halving a power of one half is exact in binary32, and so are the weights.\<close>

lemma float_mul_half:
  assumes "j < 126"
  shows "float_mul ((1 / 2) ^ j) (1 / 2) = (1 / 2) ^ Suc j"
  using float32_half_power [of "Suc j"] assms unfolding float_mul_def by simp

lemma weight_exact:
  assumes "\<forall>j < a + k. fmul ((1 / 2) ^ j) (1 / 2) = (1 / 2) ^ Suc j"
  shows "weight fmul ((1 / 2) ^ a) k = (1 / 2) ^ (a + k)"
  using assms
proof (induction k arbitrary: a)
  case 0
  then show ?case by simp
next
  case (Suc k)
  have e1: "fmul ((1 / 2) ^ a) (1 / 2) = (1 / 2) ^ Suc a"
    using Suc.prems by simp
  have e2: "weight fmul ((1 / 2) ^ Suc a) k = (1 / 2) ^ (Suc a + k)"
    using Suc.prems by (intro Suc.IH) simp
  show ?case
    by (simp only: weight.simps e1 e2 add_Suc add_Suc_right)
qed

lemma weight_float_mul:
  assumes "k \<le> 126"
  shows "weight float_mul 1 k = (1 / 2) ^ k"
proof -
  have "\<forall>j < 0 + k. float_mul ((1 / 2) ^ j) (1 / 2) = (1 / 2) ^ Suc j"
    using assms by (simp add: float_mul_half)
  then have "weight float_mul ((1 / 2) ^ 0) k = (1 / 2) ^ (0 + k)"
    by (rule weight_exact)
  then show ?thesis
    by simp
qed

section \<open>The bulk operations\<close>

lemma length_chunks: "length (chunks ratio n xs) = n"
  by (induction n arbitrary: xs) simp_all

lemma chunks_nth: "i < n \<Longrightarrow> chunks ratio n xs ! i = take ratio (drop (i * ratio) xs)"
proof (induction n arbitrary: i xs)
  case 0
  then show ?case by simp
next
  case (Suc n)
  show ?case
  proof (cases i)
    case 0
    then show ?thesis by simp
  next
    case (Suc j)
    with Suc.prems have "j < n" by simp
    then have "chunks ratio n (drop ratio xs) ! j = take ratio (drop (j * ratio) (drop ratio xs))"
      by (rule Suc.IH)
    then show ?thesis
      unfolding Suc by (simp add: add.commute)
  qed
qed

lemma sum_list_take_drop:
  assumes "k + n \<le> length xs"
  shows "sum_list (take n (drop k xs)) = (\<Sum>j<n. (xs ! (k + j) :: real))"
proof -
  have len: "length (take n (drop k xs)) = n"
    using assms by simp
  have "sum_list (take n (drop k xs)) = (\<Sum>j = 0..<n. take n (drop k xs) ! j)"
    using sum_list_sum_nth [of "take n (drop k xs)"] unfolding len .
  also have "\<dots> = (\<Sum>j = 0..<n. xs ! (k + j))"
    using assms by (intro sum.cong) simp_all
  finally show ?thesis
    by (simp add: lessThan_atLeast0)
qed

lemma rebuild_level0:
  assumes "0 < levels l" "i < length xs"
  shows "bin (rebuild f l xs) 0 i = xs ! i"
proof -
  from assms(1) obtain n where n: "nat (levels l) = Suc n"
    by (cases "nat (levels l)") simp_all
  have "(pyramid f (Suc n) xs @ ys) ! i = xs ! i" for ys
    using assms(2) by (simp add: nth_append)
  then show ?thesis
    unfolding bin_def rebuild_def Let_def n by simp
qed

lemma wf_line_levels: "wf_line l r \<Longrightarrow> 0 < levels l"
  unfolding wf_line_def by simp

lemma setValueMax_level0:
  assumes "wf_line l r" "0 \<le> index" "index < r"
  shows "\<exists>l'. setValueMax l index val = Inr l' \<and> wf_line l' r
           \<and> (\<forall>i < nat r. bin l' 0 i = (if i = nat index then max val (bin l 0 i) else bin l 0 i))"
proof -
  have "0 < nat (levels l)"
    using wf_line_levels [OF assms(1)] by simp
  then show ?thesis
    using setValueMax_bins [OF assms, of val] by fastforce
qed

text \<open>What the bin-by-bin loop leaves at level 0.\<close>

lemma setValuesMax_level0:
  assumes "wf_line l r" "0 \<le> i0" "i0 + int (length vs) \<le> r"
  shows "\<exists>l'. setValuesMax l i0 vs = Inr l' \<and> wf_line l' r
           \<and> (\<forall>i < nat r. bin l' 0 i =
                 (if nat i0 \<le> i \<and> i < nat i0 + length vs
                  then max (vs ! (i - nat i0)) (bin l 0 i) else bin l 0 i))"
  using assms
proof (induction vs arbitrary: l i0)
  case Nil
  then show ?case by simp
next
  case (Cons v vs)
  from Cons.prems have i0: "0 \<le> i0" "i0 < r"
    by simp_all
  from setValueMax_level0 [OF Cons.prems(1) i0, of v] obtain l1 where
    s: "setValueMax l i0 v = Inr l1" and w: "wf_line l1 r"
    and b1: "\<And>i. i < nat r \<Longrightarrow>
      bin l1 0 i = (if i = nat i0 then max v (bin l 0 i) else bin l 0 i)"
    by blast
  have "\<exists>l'. setValuesMax l1 (i0 + 1) vs = Inr l' \<and> wf_line l' r
           \<and> (\<forall>i < nat r. bin l' 0 i =
                 (if nat (i0 + 1) \<le> i \<and> i < nat (i0 + 1) + length vs
                  then max (vs ! (i - nat (i0 + 1))) (bin l1 0 i) else bin l1 0 i))"
    using w Cons.prems(2,3) by (intro Cons.IH) simp_all
  then obtain l' where
    r: "setValuesMax l1 (i0 + 1) vs = Inr l'" and w': "wf_line l' r"
    and b': "\<And>i. i < nat r \<Longrightarrow> bin l' 0 i =
                 (if nat (i0 + 1) \<le> i \<and> i < nat (i0 + 1) + length vs
                  then max (vs ! (i - nat (i0 + 1))) (bin l1 0 i) else bin l1 0 i)"
    by blast
  have n1: "nat (i0 + 1) = Suc (nat i0)"
    using i0(1) by simp
  have "bin l' 0 i =
                 (if nat i0 \<le> i \<and> i < nat i0 + length (v # vs)
                  then max ((v # vs) ! (i - nat i0)) (bin l 0 i) else bin l 0 i)"
    if i: "i < nat r" for i
  proof (cases "i = nat i0")
    case True
    then show ?thesis
      using b' [OF i] b1 [OF i] unfolding n1 by simp
  next
    case False
    then have "(v # vs) ! (i - nat i0) = vs ! (i - Suc (nat i0))" if "nat i0 \<le> i"
      using that by (simp add: nth_Cons')
    then show ?thesis
      using False b' [OF i] b1 [OF i] unfolding n1 by auto
  qed
  then show ?case
    using s r w' by simp
qed

lemma fresh_line:
  assumes "is_pow2 r" "r < 2 ^ 30"
  shows "\<exists>l. setResolution l0 r = Inr l \<and> wf_line l r \<and> (\<forall>i < nat r. bin l 0 i = 0)"
proof -
  from assms(1) have pos: "0 < r"
    by (simp add: is_pow2_def)
  let ?l = "\<lparr>levels = int (ceillog2 (nat r)) + 1, data = replicate (nat (2 * r)) 0\<rparr>"
  have e: "setResolution l0 r = Inr ?l"
    using pos assms(2) by (rule setResolution_small)
  have "resolution ?l = r"
    using pos assms(2) by (intro resolution_length) simp_all
  then have w: "wf_line ?l r"
    unfolding wf_line_def using assms(1) by simp
  have "bin ?l 0 i = 0" if "i < nat r" for i
    unfolding bin_def using that pos by simp
  with e w show ?thesis
    by blast
qed

section \<open>Claims about setResolution\<close>

text \<open>
  C3, as amended: for every power-of-two \<open>res\<close> with \<open>0 < res < 2^30\<close>, after
  \<open>setResolution(res)\<close> the buffer has length exactly \<open>2 * res\<close>, every element is 0,
  \<open>levels\<close> is \<open>\<lceil>log2 res\<rceil> + 1\<close> and \<open>resolution()\<close> returns \<open>res\<close>.
\<close>

theorem setResolution_pow2:
  assumes "is_pow2 res" "res < 2 ^ 30"
  shows "\<exists>l'. setResolution l res = Inr l'
           \<and> length (data l') = nat (2 * res)
           \<and> (\<forall>x \<in> set (data l'). x = 0)
           \<and> levels l' = \<lceil>log 2 (real_of_int res)\<rceil> + 1
           \<and> resolution l' = res"
proof -
  from assms(1) have pos: "0 < res"
    by (simp add: is_pow2_def)
  let ?l' = "\<lparr>levels = int (ceillog2 (nat res)) + 1, data = replicate (nat (2 * res)) 0\<rparr>"
  have eq: "setResolution l res = Inr ?l'"
    using pos assms(2) by (rule setResolution_small)
  have "0 \<le> log 2 (real_of_int res)"
    using pos by simp
  then have "0 \<le> \<lceil>log 2 (real_of_int res)\<rceil>"
    by linarith
  then have lv: "levels ?l' = \<lceil>log 2 (real_of_int res)\<rceil> + 1"
    using pos by (simp add: ceillog2_def)
  have rs: "resolution ?l' = res"
    using pos assms(2) by (intro resolution_length) simp_all
  show ?thesis
    using eq lv rs by simp
qed

theorem setResolution_pow2_witness:
  "is_pow2 4 \<and> (4::int) < 2 ^ 30
   \<and> (\<exists>l'. setResolution \<lparr>levels = 0, data = []\<rparr> 4 = Inr l'
           \<and> length (data l') = nat (2 * 4)
           \<and> (\<forall>x \<in> set (data l'). x = 0)
           \<and> levels l' = \<lceil>log 2 (real_of_int 4)\<rceil> + 1
           \<and> resolution l' = 4)"
proof -
  have p: "is_pow2 4"
    using is_pow2_iff [of 4] by (metis power2_eq_square numeral_Bit0 mult_2)
  have b: "(4::int) < 2 ^ 30" by simp
  show ?thesis
    using p b setResolution_pow2 [OF p b, of "\<lparr>levels = 0, data = []\<rparr>"] by blast
qed

text \<open>
  C3 as stated fails at \<open>res = 2^30\<close>, a power of two within \<open>int\<close>: the shift
  \<open>res << 1\<close> leaves the range of \<open>int\<close>, the negative result converts to a \<open>size_t\<close>
  beyond \<open>max_size\<close>, and \<open>resize\<close> throws.
\<close>

theorem setResolution_pow2_counterexample:
  "is_pow2 (2 ^ 30) \<and> (2 ^ 30 :: int) \<le> INT_MAX
   \<and> setResolution \<lparr>levels = 0, data = []\<rparr> (2 ^ 30) = Inl LengthError"
proof -
  have p: "is_pow2 (2 ^ 30)"
    unfolding is_pow2_iff by blast
  have a: "allocationFor (2 ^ 30) = - (2 ^ 31)"
    unfolding allocationFor_def int32_def by (simp add: push_bit_eq_mult)
  have s: "size_t (- (2 ^ 31)) > max_size"
    unfolding size_t_def max_size_def by simp
  have "setResolution \<lparr>levels = 0, data = []\<rparr> (2 ^ 30) = Inl LengthError"
    unfolding setResolution_def Let_def a using s by simp
  with p show ?thesis
    by (simp add: INT_MAX_def)
qed

text \<open>
  C7, as amended: \<open>setResolution\<close> checks nothing. For every \<open>res\<close> with
  \<open>0 < res < 2^30\<close> that is not a power of two it returns normally, with
  \<open>levels = \<lceil>log2 res\<rceil> + 1\<close> and a zeroed buffer of \<open>2 * res\<close> elements.
\<close>

theorem setResolution_unchecked:
  assumes "\<not> is_pow2 res" "0 < res" "res < 2 ^ 30"
  shows "setResolution l res =
    Inr \<lparr>levels = \<lceil>log 2 (real_of_int res)\<rceil> + 1, data = replicate (nat (2 * res)) 0\<rparr>"
proof -
  have "0 \<le> log 2 (real_of_int res)"
    using assms(2) by simp
  then have "0 \<le> \<lceil>log 2 (real_of_int res)\<rceil>"
    by linarith
  then have "int (ceillog2 (nat res)) = \<lceil>log 2 (real_of_int res)\<rceil>"
    using assms(2) by (simp add: ceillog2_def)
  then show ?thesis
    using setResolution_small [OF assms(2,3), of l] by simp
qed

theorem setResolution_unchecked_witness:
  "\<not> is_pow2 3 \<and> (0::int) < 3 \<and> (3::int) < 2 ^ 30
   \<and> setResolution \<lparr>levels = 0, data = []\<rparr> 3 =
    Inr \<lparr>levels = \<lceil>log 2 (real_of_int 3)\<rceil> + 1, data = replicate (nat (2 * 3)) 0\<rparr>"
proof -
  have b: "(0::int) < 3" "(3::int) < 2 ^ 30"
    by simp_all
  show ?thesis
    using not_pow2_3 b setResolution_unchecked [OF not_pow2_3 b, of "\<lparr>levels = 0, data = []\<rparr>"]
    by blast
qed

text \<open>
  C7 as stated fails at \<open>res = 3\<close>: \<open>setResolution(3)\<close> returns normally, with a
  line of 3 levels and 6 zeroed elements.
\<close>

theorem setResolution_unchecked_counterexample:
  "\<not> is_pow2 3
   \<and> setResolution \<lparr>levels = 0, data = []\<rparr> 3 = Inr \<lparr>levels = 3, data = [0, 0, 0, 0, 0, 0]\<rparr>"
proof -
  have c: "ceillog2 3 = 2"
    by (rule ceillog2_eqI) simp_all
  have "setResolution \<lparr>levels = 0, data = []\<rparr> 3
      = Inr \<lparr>levels = int (ceillog2 (nat 3)) + 1, data = replicate (nat (2 * 3)) 0\<rparr>"
    by (rule setResolution_small) simp_all
  moreover have "int (ceillog2 (nat 3)) + 1 = 3"
    using c by simp
  moreover have "replicate (nat (2 * 3)) (0::real) = [0, 0, 0, 0, 0, 0]"
    by (simp add: numeral_eq_Suc)
  ultimately have "setResolution \<lparr>levels = 0, data = []\<rparr> 3
      = Inr \<lparr>levels = 3, data = [0, 0, 0, 0, 0, 0]\<rparr>"
    by simp
  with not_pow2_3 show ?thesis
    by blast
qed

section \<open>Claims about the single-bin updates\<close>

text \<open>
  C1: on a line of power-of-two resolution \<open>r\<close> that satisfies the max-pyramid invariant
  (every bin of a level above 0 is the max of bins \<open>2i\<close> and \<open>2i + 1\<close> of the level
  below), \<open>setValueMax(index, val)\<close> with \<open>0 \<le> index < r\<close> gives a line of resolution
  \<open>r\<close> that satisfies it too.
\<close>

theorem setValueMax_max_pyramid:
  assumes wf: "wf_line l r" and inv: "max_pyramid l" and i0: "0 \<le> index" and i1: "index < r"
  shows "\<exists>l'. setValueMax l index val = Inr l' \<and> wf_line l' r \<and> max_pyramid l'"
proof -
  from setValueMax_bins [OF wf i0 i1, of val] obtain l' where
    e: "setValueMax l index val = Inr l'" and w: "wf_line l' r" and lv: "levels l' = levels l"
    and bins: "\<And>k i. k < nat (levels l) \<Longrightarrow> i < nat r div 2 ^ k \<Longrightarrow>
                 bin l' k i = (if i = nat index div 2 ^ k then max val (bin l k i) else bin l k i)"
    by auto
  from wf obtain n where n: "r = 2 ^ n" "n < 30" "nat r = 2 ^ n" "levels l = int (Suc n)"
    "resolution l = 2 ^ n" "length (data l) = 2 * 2 ^ n"
    by (rule wf_lineE)
  have nl: "nat (levels l) = Suc n"
    unfolding n(4) by (rule nat_int)
  have res: "resolution l = r" "resolution l' = r"
    using wf w unfolding wf_line_def by simp_all
  have "bin l' k i = max (bin l' (k - 1) (2 * i)) (bin l' (k - 1) (2 * i + 1))"
    if k: "k \<in> {1..<nat (levels l)}" and i: "i \<in> {..<nat r div 2 ^ k}" for k i
  proof -
    from k obtain k' where k': "k = Suc k'"
      by (cases k) simp_all
    from k have kn: "k \<le> n"
      unfolding nl by simp
    have kl: "k < nat (levels l)" "k' < nat (levels l)"
      using k unfolding k' by simp_all
    have il: "i < nat r div 2 ^ k"
      using i by simp
    have d1: "(2::nat) ^ n div 2 ^ k = 2 ^ (n - k)"
      using kn by (simp add: power_diff)
    have "(2::nat) ^ n div 2 ^ k' = 2 ^ (n - k')"
      using kn k' by (simp add: power_diff)
    moreover have "n - k' = Suc (n - k)"
      using kn k' by simp
    ultimately have d0: "(2::nat) ^ n div 2 ^ k' = 2 * 2 ^ (n - k)"
      by simp
    from il d0 d1 have cl: "2 * i < nat r div 2 ^ k'" "2 * i + 1 < nat r div 2 ^ k'"
      unfolding n(3) by simp_all
    let ?j = "nat index div 2 ^ k'"
    have j: "nat index div 2 ^ k = ?j div 2"
      unfolding k' by (simp only: power_Suc2 div_mult2_eq)
    have old: "bin l k i = max (bin l k' (2 * i)) (bin l k' (2 * i + 1))"
      using inv k i unfolding max_pyramid_def res k' by simp
    have new: "bin l' k i = (if i = ?j div 2 then max val (bin l k i) else bin l k i)"
      "bin l' k' (2 * i) = (if 2 * i = ?j then max val (bin l k' (2 * i)) else bin l k' (2 * i))"
      "bin l' k' (2 * i + 1) =
         (if 2 * i + 1 = ?j then max val (bin l k' (2 * i + 1)) else bin l k' (2 * i + 1))"
      using bins [OF kl(1) il] bins [OF kl(2) cl(1)] bins [OF kl(2) cl(2)] unfolding j
      by simp_all
    consider "?j = 2 * i" | "?j = 2 * i + 1" | "?j div 2 \<noteq> i"
      by linarith
    then have "bin l' k i = max (bin l' k' (2 * i)) (bin l' k' (2 * i + 1))"
    proof cases
      case 1
      then show ?thesis
        unfolding new old by (simp add: max_insert(1))
    next
      case 2
      then show ?thesis
        unfolding new old by (simp add: max_insert(2))
    next
      case 3
      then have "2 * i \<noteq> ?j" "2 * i + 1 \<noteq> ?j" "i \<noteq> ?j div 2"
        by auto
      then show ?thesis
        unfolding new old by simp
    qed
    then show ?thesis
      unfolding k' by simp
  qed
  then have "max_pyramid l'"
    unfolding max_pyramid_def lv res by blast
  with e w show ?thesis
    by blast
qed

theorem setValueMax_max_pyramid_witness:
  "wf_line \<lparr>levels = 2, data = [1, 3, 3, 0]\<rparr> 2
   \<and> max_pyramid \<lparr>levels = 2, data = [1, 3, 3, 0]\<rparr>
   \<and> (0::int) \<le> 0 \<and> (0::int) < 2
   \<and> setValueMax \<lparr>levels = 2, data = [1, 3, 3, 0]\<rparr> 0 5
        = Inr \<lparr>levels = 2, data = [5, 3, 5, 0]\<rparr>
   \<and> (\<exists>l'. setValueMax \<lparr>levels = 2, data = [1, 3, 3, 0]\<rparr> 0 5 = Inr l'
          \<and> wf_line l' 2 \<and> max_pyramid l')"
proof -
  have w: "wf_line \<lparr>levels = 2, data = [1, 3, 3, 0]\<rparr> 2"
    by (simp add: wf_line_def is_pow2_def resolution_def resolutionFor_def allocation_def int32_def)
  have p: "max_pyramid \<lparr>levels = 2, data = [1, 3, 3, 0]\<rparr>"
    by (simp add: max_pyramid_def bin_def resolution_def resolutionFor_def allocation_def
        int32_def atLeastLessThan_upt lessThan_atLeast0 upt_conv_Cons)
  have i: "(0::int) \<le> 0" "(0::int) < 2"
    by simp_all
  have s: "setValueMax \<lparr>levels = 2, data = [1, 3, 3, 0]\<rparr> 0 5
        = Inr \<lparr>levels = 2, data = [5, 3, 5, 0]\<rparr>"
    by (simp add: setValueMax_def setValueMax_loop.simps Let_def resolution_def resolutionFor_def
        allocation_def int32_def size_t_def)
  show ?thesis
    using w p i s setValueMax_max_pyramid [OF w p i, of 5] by blast
qed

text \<open>
  C8: on a line of power-of-two resolution \<open>r\<close> and for \<open>0 \<le> index < r\<close>, \<open>setValueMax\<close>
  and \<open>setValueMean\<close> return a line: no access of theirs leaves the buffer of
  \<open>2 * r\<close> elements (an access outside it is the result \<open>Inl OutOfBounds\<close>), and the
  offsets they visit, one per level, are below \<open>2 * r\<close>. This holds whatever the float
  operations of \<open>setValueMean\<close> round to.
\<close>

theorem setValue_in_bounds:
  assumes "wf_line l r" "0 \<le> index" "index < r"
  shows "(\<exists>l'. setValueMax l index val = Inr l' \<and> length (data l') = nat (2 * r))
       \<and> (\<exists>l'. setValueMean fadd fmul l index val = Inr l' \<and> length (data l') = nat (2 * r))
       \<and> length (data l) = nat (2 * r)
       \<and> (\<forall>k < nat (levels l). ancestor l index k < nat (2 * r))"
proof -
  have len: "length (data l) = nat (2 * r)"
    using assms(1) unfolding wf_line_def by simp
  have a: "\<exists>l'. setValueMax l index val = Inr l' \<and> length (data l') = nat (2 * r)"
    using setValueMax_bins [OF assms, of val] len by auto
  have b: "\<exists>l'. setValueMean fadd fmul l index val = Inr l' \<and> length (data l') = nat (2 * r)"
    using setValueMean_bins [OF assms, of fadd fmul val] len by auto
  have c: "\<forall>k < nat (levels l). ancestor l index k < nat (2 * r)"
    using ancestors(2) [OF assms] by (auto dest: less_imp_diff_less)
  show ?thesis
    using a b c len by blast
qed

theorem setValue_in_bounds_witness:
  "wf_line \<lparr>levels = 2, data = [1, 3, 3, 0]\<rparr> 2 \<and> (0::int) \<le> 1 \<and> (1::int) < 2
   \<and> setValueMax \<lparr>levels = 2, data = [1, 3, 3, 0]\<rparr> 1 5
       = Inr \<lparr>levels = 2, data = [1, 5, 5, 0]\<rparr>
   \<and> setValueMean float_add float_mul \<lparr>levels = 2, data = [1, 3, 3, 0]\<rparr> 1 4
       = Inr \<lparr>levels = 2, data = [1, 7, 5, 0]\<rparr>
   \<and> (\<exists>l'. setValueMax \<lparr>levels = 2, data = [1, 3, 3, 0]\<rparr> 1 5 = Inr l'
          \<and> length (data l') = nat (2 * 2))"
proof -
  have w: "wf_line \<lparr>levels = 2, data = [1, 3, 3, 0]\<rparr> 2"
    by (simp add: wf_line_def is_pow2_def resolution_def resolutionFor_def allocation_def int32_def)
  have i: "(0::int) \<le> 1" "(1::int) < 2"
    by simp_all
  have a: "setValueMax \<lparr>levels = 2, data = [1, 3, 3, 0]\<rparr> 1 5
       = Inr \<lparr>levels = 2, data = [1, 5, 5, 0]\<rparr>"
    by (simp add: setValueMax_def setValueMax_loop.simps Let_def resolution_def resolutionFor_def
        allocation_def int32_def size_t_def)
  have b: "setValueMean float_add float_mul \<lparr>levels = 2, data = [1, 3, 3, 0]\<rparr> 1 4
       = Inr \<lparr>levels = 2, data = [1, 7, 5, 0]\<rparr>"
    by (simp add: setValueMean_def setValueMean_loop.simps Let_def resolution_def resolutionFor_def
        allocation_def int32_def size_t_def float_add_def float_mul_def float32_numeral
        float32_half)
  show ?thesis
    using w i a b setValue_in_bounds [OF w i, of 5 float_add float_mul] by blast
qed

text \<open>
  C4: on a line of power-of-two resolution \<open>r\<close> and for \<open>0 \<le> index < r\<close>,
  \<open>setValueMean(index, val)\<close> adds the product of the weight and \<open>val\<close> to bin
  \<open>index >> k\<close> of level \<open>k\<close>, for every level \<open>k\<close> from 0 to \<open>levels - 1\<close>; the weight
  starts at 1 and is multiplied by one half at each coarser level. Sum and product are
  the float operations of the source, whatever their rounding. Where halving a power of
  one half is exact, as it is in binary32, the weight at level \<open>k\<close> is \<open>2^(-k)\<close>.
\<close>

theorem setValueMean_adds:
  assumes "wf_line l r" "0 \<le> index" "index < r"
  shows "\<exists>l'. setValueMean fadd fmul l index val = Inr l'
           \<and> (\<forall>k < nat (levels l).
                 bin l' k (nat (drop_bit k index)) =
                   fadd (bin l k (nat (drop_bit k index))) (fmul (weight fmul 1 k) val)
                 \<and> ((\<forall>j < k. fmul ((1 / 2) ^ j) (1 / 2) = (1 / 2) ^ Suc j) \<longrightarrow>
                      weight fmul 1 k = (1 / 2) ^ k))"
proof -
  from setValueMean_bins [OF assms, of fadd fmul val] obtain l' where
    e: "setValueMean fadd fmul l index val = Inr l'"
    and bins: "\<And>k i. k < nat (levels l) \<Longrightarrow> i < nat r div 2 ^ k \<Longrightarrow>
                 bin l' k i =
                   (if i = nat index div 2 ^ k
                    then fadd (bin l k i) (fmul (weight fmul 1 k) val) else bin l k i)"
    by auto
  have a: "bin l' k (nat (drop_bit k index)) =
      fadd (bin l k (nat (drop_bit k index))) (fmul (weight fmul 1 k) val)"
    if "k < nat (levels l)" for k
    using bins [OF that index_bin [OF assms that]] assms(2) by (simp add: nat_drop_bit)
  have b: "weight fmul 1 k = (1 / 2) ^ k"
    if "\<forall>j < k. fmul ((1 / 2) ^ j) (1 / 2) = (1 / 2) ^ Suc j" for k
    using weight_exact [of 0 k fmul] that by simp
  from e a b show ?thesis
    by blast
qed

theorem setValueMean_adds_witness:
  "wf_line \<lparr>levels = 2, data = [16777216, 0, 16777216, 0]\<rparr> 2 \<and> (0::int) \<le> 0 \<and> (0::int) < 2
   \<and> setValueMean float_add float_mul \<lparr>levels = 2, data = [16777216, 0, 16777216, 0]\<rparr> 0 1
        = Inr \<lparr>levels = 2, data = [16777216, 0, 16777216, 0]\<rparr>
   \<and> setValueMean float_add float_mul \<lparr>levels = 1, data = [16777216, 0]\<rparr> 0 1
        = Inr \<lparr>levels = 1, data = [16777216, 0]\<rparr>
   \<and> weight float_mul 1 1 = 1 / 2
   \<and> (\<exists>l'. setValueMean float_add float_mul
               \<lparr>levels = 2, data = [16777216, 0, 16777216, 0]\<rparr> 0 1 = Inr l'
           \<and> (\<forall>k < nat (levels \<lparr>levels = 2, data = [16777216, 0, 16777216, 0]\<rparr>).
                 bin l' k (nat (drop_bit k 0)) =
                   float_add (bin \<lparr>levels = 2, data = [16777216, 0, 16777216, 0]\<rparr> k
                                (nat (drop_bit k 0)))
                     (float_mul (weight float_mul 1 k) 1)
                 \<and> ((\<forall>j < k. float_mul ((1 / 2) ^ j) (1 / 2) = (1 / 2) ^ Suc j) \<longrightarrow>
                      weight float_mul 1 k = (1 / 2) ^ k)))"
proof -
  have w: "wf_line \<lparr>levels = 2, data = [16777216, 0, 16777216, 0]\<rparr> 2"
    by (simp add: wf_line_def is_pow2_def resolution_def resolutionFor_def allocation_def int32_def)
  have i: "(0::int) \<le> 0" "(0::int) < 2"
    by simp_all
  have v: "setValueMean float_add float_mul \<lparr>levels = 2, data = [16777216, 0, 16777216, 0]\<rparr> 0 1
        = Inr \<lparr>levels = 2, data = [16777216, 0, 16777216, 0]\<rparr>"
    by (simp add: setValueMean_def setValueMean_loop.simps Let_def resolution_def resolutionFor_def
        allocation_def int32_def size_t_def float_add_def float_mul_def float32_one float32_half
        float32_16777217 float32_33554433_half)
  have v1: "setValueMean float_add float_mul \<lparr>levels = 1, data = [16777216, 0]\<rparr> 0 1
        = Inr \<lparr>levels = 1, data = [16777216, 0]\<rparr>"
    by (simp add: setValueMean_def setValueMean_loop.simps Let_def resolution_def resolutionFor_def
        allocation_def int32_def size_t_def float_add_def float_mul_def float32_one float32_half
        float32_16777217)
  have h: "weight float_mul 1 1 = 1 / 2"
    by (simp add: float_mul_def float32_half)
  show ?thesis
    using w i v v1 h setValueMean_adds [OF w i, of float_add float_mul 1] by blast
qed

text \<open>
  C9: on a line of power-of-two resolution \<open>r\<close> and for \<open>0 \<le> index < r\<close>, \<open>setValueMax\<close>
  and \<open>setValueMean\<close> change only the ancestor cells of bin \<open>index\<close>, of which there is
  one per level, \<open>levels\<close> in all; \<open>levels\<close> and the length of the buffer stay. The last
  cell, at offset \<open>2 * r - 1\<close>, is no ancestor and keeps its value, so that when it is 0,
  as \<open>setResolution\<close> leaves it, it is 0 after any run of updates at bins below \<open>r\<close>.
  This holds whatever the float operations of \<open>setValueMean\<close> round to.
\<close>

theorem setValue_frame:
  assumes "wf_line l r" "0 \<le> index" "index < r"
  shows "\<exists>l1 l2. setValueMax l index val = Inr l1 \<and> setValueMean fadd fmul l index val = Inr l2
           \<and> levels l1 = levels l \<and> levels l2 = levels l
           \<and> length (data l1) = length (data l) \<and> length (data l2) = length (data l)
           \<and> (\<forall>pos < nat (2 * r). pos \<notin> ancestor l index ` {..<nat (levels l)} \<longrightarrow>
                 data l1 ! pos = data l ! pos \<and> data l2 ! pos = data l ! pos)
           \<and> card (ancestor l index ` {..<nat (levels l)}) = nat (levels l)
           \<and> nat (2 * r) - 1 \<notin> ancestor l index ` {..<nat (levels l)}
           \<and> data l1 ! (nat (2 * r) - 1) = data l ! (nat (2 * r) - 1)
           \<and> data l2 ! (nat (2 * r) - 1) = data l ! (nat (2 * r) - 1)
           \<and> (\<forall>us. data l ! (nat (2 * r) - 1) = 0
                 \<and> (\<forall>u \<in> set us. 0 \<le> update_index u \<and> update_index u < r) \<longrightarrow>
                 (\<exists>l'. apply_updates fadd fmul l us = Inr l' \<and> data l' ! (nat (2 * r) - 1) = 0))"
proof -
  have len: "length (data l) = nat (2 * r)"
    using assms(1) unfolding wf_line_def by simp
  from setValueMax_bins [OF assms, of val] obtain l1 where
    a: "setValueMax l index val = Inr l1" "levels l1 = levels l"
      "length (data l1) = length (data l)"
      "data l1 ! (nat (2 * r) - 1) = data l ! (nat (2 * r) - 1)"
      "\<forall>pos < length (data l). pos \<notin> ancestor l index ` {..<nat (levels l)}
         \<longrightarrow> data l1 ! pos = data l ! pos"
    by auto
  from setValueMean_bins [OF assms, of fadd fmul val] obtain l2 where
    b: "setValueMean fadd fmul l index val = Inr l2" "levels l2 = levels l"
      "length (data l2) = length (data l)"
      "data l2 ! (nat (2 * r) - 1) = data l ! (nat (2 * r) - 1)"
      "\<forall>pos < length (data l). pos \<notin> ancestor l index ` {..<nat (levels l)}
         \<longrightarrow> data l2 ! pos = data l ! pos"
    by auto
  have fr: "\<forall>pos < nat (2 * r). pos \<notin> ancestor l index ` {..<nat (levels l)} \<longrightarrow>
                 data l1 ! pos = data l ! pos \<and> data l2 ! pos = data l ! pos"
    using a(5) b(5) unfolding len by simp
  have cd: "card (ancestor l index ` {..<nat (levels l)}) = nat (levels l)"
    using ancestors(1) [OF assms] by (simp add: card_image)
  have pad: "nat (2 * r) - 1 \<notin> ancestor l index ` {..<nat (levels l)}"
    using ancestors(2) [OF assms] by auto
  have run: "\<forall>us. data l ! (nat (2 * r) - 1) = 0
                 \<and> (\<forall>u \<in> set us. 0 \<le> update_index u \<and> update_index u < r) \<longrightarrow>
                 (\<exists>l'. apply_updates fadd fmul l us = Inr l' \<and> data l' ! (nat (2 * r) - 1) = 0)"
  proof (intro allI impI)
    fix us
    assume h: "data l ! (nat (2 * r) - 1) = 0
                 \<and> (\<forall>u \<in> set us. 0 \<le> update_index u \<and> update_index u < r)"
    then obtain l' where "apply_updates fadd fmul l us = Inr l'"
      "data l' ! (nat (2 * r) - 1) = data l ! (nat (2 * r) - 1)"
      using apply_updates_padding [OF assms(1), of us fadd fmul] by blast
    with h show "\<exists>l'. apply_updates fadd fmul l us = Inr l' \<and> data l' ! (nat (2 * r) - 1) = 0"
      by simp
  qed
  show ?thesis
    using a(1-4) b(1-4) fr cd pad run by blast
qed

theorem setValue_frame_witness:
  "wf_line \<lparr>levels = 2, data = [1, 3, 3, 0]\<rparr> 2 \<and> (0::int) \<le> 1 \<and> (1::int) < 2
   \<and> (\<exists>l1 l2. setValueMax \<lparr>levels = 2, data = [1, 3, 3, 0]\<rparr> 1 5 = Inr l1
          \<and> setValueMean float_add float_mul \<lparr>levels = 2, data = [1, 3, 3, 0]\<rparr> 1 5 = Inr l2
          \<and> data l1 ! (nat (2 * 2) - 1) = data \<lparr>levels = 2, data = [1, 3, 3, 0]\<rparr> ! (nat (2 * 2) - 1)
          \<and> data l2 ! (nat (2 * 2) - 1) = data \<lparr>levels = 2, data = [1, 3, 3, 0]\<rparr> ! (nat (2 * 2) - 1))"
proof -
  have w: "wf_line \<lparr>levels = 2, data = [1, 3, 3, 0]\<rparr> 2"
    by (simp add: wf_line_def is_pow2_def resolution_def resolutionFor_def allocation_def int32_def)
  have i: "(0::int) \<le> 1" "(1::int) < 2"
    by simp_all
  show ?thesis
    using w i setValue_frame [OF w i, of 5 float_add float_mul] by blast
qed

section \<open>Claims about the bulk operations\<close>

text \<open>
  C2, as amended: for every power-of-two \<open>r\<close> below \<open>2^30\<close> and every sequence of \<open>r\<close>
  values, \<open>setValueMax(i, values[i])\<close> for each bin \<open>i\<close> of a freshly \<open>setResolution(r)\<close>'d
  line leaves \<open>max(0, values[i])\<close> in bin \<open>i\<close> of level 0, and \<open>assignMax(values)\<close>
  leaves \<open>values[i]\<close>: the two finest levels are the same when no value is negative.
\<close>

theorem setValuesMax_assignMax:
  assumes "is_pow2 r" "r < 2 ^ 30" "length values = nat r"
  shows "\<exists>l l1 l2. setResolution l0 r = Inr l
           \<and> setValuesMax l 0 values = Inr l1 \<and> assignMax l values = Inr l2
           \<and> (\<forall>i < nat r. bin l1 0 i = max 0 (values ! i) \<and> bin l2 0 i = values ! i)
           \<and> ((\<forall>v \<in> set values. 0 \<le> v) \<longrightarrow> (\<forall>i < nat r. bin l1 0 i = bin l2 0 i))"
proof -
  from fresh_line [OF assms(1,2), of l0] obtain l where
    e: "setResolution l0 r = Inr l" and w: "wf_line l r"
    and z: "\<And>i. i < nat r \<Longrightarrow> bin l 0 i = 0"
    by blast
  from assms(1) have pos: "0 < r"
    by (simp add: is_pow2_def)
  have "(0::int) + int (length values) \<le> r"
    using assms(3) pos by simp
  with setValuesMax_level0 [OF w, of 0 "values"] obtain l1 where
    s: "setValuesMax l 0 values = Inr l1"
    and b1: "\<And>i. i < nat r \<Longrightarrow> bin l1 0 i =
                 (if nat 0 \<le> i \<and> i < nat 0 + length values
                  then max (values ! (i - nat 0)) (bin l 0 i) else bin l 0 i)"
    by auto
  have res: "resolution l = r"
    using w unfolding wf_line_def by simp
  let ?l2 = "rebuild max l (take (nat r) values)"
  have a: "assignMax l values = Inr ?l2"
    unfolding assignMax_def Let_def res using assms(3) by simp
  have m1: "bin l1 0 i = max 0 (values ! i)" if "i < nat r" for i
    using b1 [OF that] z [OF that] that assms(3) by (simp add: max.commute)
  have m2: "bin ?l2 0 i = values ! i" if "i < nat r" for i
  proof -
    have "bin ?l2 0 i = take (nat r) values ! i"
      using that assms(3) wf_line_levels [OF w] by (intro rebuild_level0) simp_all
    then show ?thesis
      using that by simp
  qed
  have same: "bin l1 0 i = bin ?l2 0 i" if "\<forall>v \<in> set values. 0 \<le> v" "i < nat r" for i
  proof -
    have "values ! i \<in> set values"
      using that(2) assms(3) by simp
    with that(1) have "0 \<le> values ! i"
      by blast
    then show ?thesis
      using m1 [OF that(2)] m2 [OF that(2)] by simp
  qed
  show ?thesis
    using e s a m1 m2 same by blast
qed

theorem setValuesMax_assignMax_witness:
  "is_pow2 2 \<and> (2::int) < 2 ^ 30 \<and> length [3, 1 :: real] = nat 2
   \<and> (\<exists>l l1 l2. setResolution \<lparr>levels = 0, data = []\<rparr> 2 = Inr l
           \<and> setValuesMax l 0 [3, 1] = Inr l1 \<and> assignMax l [3, 1] = Inr l2
           \<and> (\<forall>i < nat 2. bin l1 0 i = max 0 ([3, 1] ! i) \<and> bin l2 0 i = [3, 1] ! i)
           \<and> ((\<forall>v \<in> set [3, 1 :: real]. 0 \<le> v) \<longrightarrow> (\<forall>i < nat 2. bin l1 0 i = bin l2 0 i)))"
proof -
  have h: "is_pow2 2" "(2::int) < 2 ^ 30" "length [3, 1 :: real] = nat 2"
    by (simp_all add: is_pow2_def)
  show ?thesis
    using h setValuesMax_assignMax [OF h, of "\<lparr>levels = 0, data = []\<rparr>"] by blast
qed

text \<open>
  C2 as stated fails for a negative value: on the zeroed line of resolution 1,
  \<open>setValueMax(0, -1)\<close> keeps the 0 of bin 0, while \<open>assignMax\<close> writes -1 there.
\<close>

theorem setValuesMax_assignMax_counterexample:
  "is_pow2 1
   \<and> setResolution \<lparr>levels = 0, data = []\<rparr> 1 = Inr \<lparr>levels = 1, data = [0, 0]\<rparr>
   \<and> setValuesMax \<lparr>levels = 1, data = [0, 0]\<rparr> 0 [- 1] = Inr \<lparr>levels = 1, data = [0, 0]\<rparr>
   \<and> assignMax \<lparr>levels = 1, data = [0, 0]\<rparr> [- 1] = Inr \<lparr>levels = 1, data = [- 1, 0]\<rparr>
   \<and> bin \<lparr>levels = 1, data = [0, 0]\<rparr> 0 0 \<noteq> bin \<lparr>levels = 1, data = [- 1, 0]\<rparr> 0 0"
proof -
  have p: "is_pow2 1"
    by (simp add: is_pow2_def)
  have "setResolution \<lparr>levels = 0, data = []\<rparr> 1
      = Inr \<lparr>levels = int (ceillog2 (nat 1)) + 1, data = replicate (nat (2 * 1)) 0\<rparr>"
    by (rule setResolution_small) simp_all
  then have r: "setResolution \<lparr>levels = 0, data = []\<rparr> 1 = Inr \<lparr>levels = 1, data = [0, 0]\<rparr>"
    by (simp add: numeral_2_eq_2)
  have s: "setValuesMax \<lparr>levels = 1, data = [0, 0]\<rparr> 0 [- 1] = Inr \<lparr>levels = 1, data = [0, 0]\<rparr>"
    by (simp add: setValueMax_def setValueMax_loop.simps Let_def resolution_def resolutionFor_def
        allocation_def int32_def size_t_def)
  have a: "assignMax \<lparr>levels = 1, data = [0, 0]\<rparr> [- 1] = Inr \<lparr>levels = 1, data = [- 1, 0]\<rparr>"
    by (simp add: assignMax_def rebuild_def Let_def resolution_def resolutionFor_def
        allocation_def int32_def)
  have b: "bin \<lparr>levels = 1, data = [0, 0]\<rparr> 0 0 \<noteq> bin \<lparr>levels = 1, data = [- 1, 0]\<rparr> 0 0"
    by (simp add: bin_def)
  show ?thesis
    using p r s a b by blast
qed

text \<open>
  C5: on a line of power-of-two resolution \<open>r\<close> and for an array of at least \<open>len\<close>
  samples with \<open>len \<ge> r\<close>, after \<open>reduceMean(values, len)\<close> bin \<open>i\<close> of level 0 is the
  arithmetic mean of \<open>values[i * ratio .. i * ratio + ratio - 1]\<close>, where
  \<open>ratio = len / r\<close>.
\<close>

theorem reduceMean_level0:
  assumes "wf_line l r" "len \<le> int (length values)" "r \<le> len"
  shows "\<exists>l'. reduceMean l values len = Inr l'
           \<and> (\<forall>i < nat r. bin l' 0 i =
                 (\<Sum>j < nat (len div r). values ! (i * nat (len div r) + j))
                   / real (nat (len div r)))"
proof -
  from assms(1) obtain n where n: "r = 2 ^ n" "n < 30" "nat r = 2 ^ n" "levels l = int (Suc n)"
    "resolution l = 2 ^ n" "length (data l) = 2 * 2 ^ n"
    by (rule wf_lineE)
  have rpos: "0 < r"
    unfolding n(1) by simp
  have res: "resolution l = r"
    unfolding n(1,5) ..
  let ?R = "nat (len div r)"
  have ratio: "0 < len div r"
    using rpos assms(3) by (simp add: pos_imp_zdiv_pos_iff)
  let ?xs = "map mean (chunks ?R (nat r) values)"
  let ?l' = "rebuild (\<lambda>a b. (a + b) / 2) l ?xs"
  have e: "reduceMean l values len = Inr ?l'"
    unfolding reduceMean_def Let_def res using assms(2) rpos ratio by simp
  have "r * (len div r) \<le> len"
    using pos_mod_sign [OF rpos, of len] mult_div_mod_eq [of r len] by linarith
  then have "nat (r * (len div r)) \<le> nat len"
    by simp
  then have fit: "nat r * ?R \<le> length values"
    using assms(2) rpos ratio by (simp add: nat_mult_distrib)
  have "bin ?l' 0 i = (\<Sum>j < ?R. values ! (i * ?R + j)) / real ?R" if i: "i < nat r" for i
  proof -
    have "Suc i * ?R \<le> nat r * ?R"
      using i by (intro mult_le_mono1) simp
    with fit have in_range: "i * ?R + ?R \<le> length values"
      by simp
    have "bin ?l' 0 i = ?xs ! i"
      using i by (intro rebuild_level0) (simp_all add: n(4) length_chunks)
    also have "\<dots> = mean (take ?R (drop (i * ?R) values))"
      using i by (simp add: length_chunks chunks_nth)
    also have "\<dots> = sum_list (take ?R (drop (i * ?R) values)) / real ?R"
      unfolding mean_def using in_range by simp
    also have "\<dots> = (\<Sum>j < ?R. values ! (i * ?R + j)) / real ?R"
      using in_range by (simp add: sum_list_take_drop)
    finally show ?thesis .
  qed
  with e show ?thesis
    by blast
qed

theorem reduceMean_level0_witness:
  "wf_line \<lparr>levels = 2, data = [9, 9, 9, 0]\<rparr> 2
   \<and> (5::int) \<le> int (length [1, 2, 3, 4, 5 :: real]) \<and> (2::int) \<le> 5
   \<and> reduceMean \<lparr>levels = 2, data = [9, 9, 9, 0]\<rparr> [1, 2, 3, 4, 5] 5
        = Inr \<lparr>levels = 2, data = [3 / 2, 7 / 2, 5 / 2, 0]\<rparr>
   \<and> (\<exists>l'. reduceMean \<lparr>levels = 2, data = [9, 9, 9, 0]\<rparr> [1, 2, 3, 4, 5] 5 = Inr l'
           \<and> (\<forall>i < nat 2. bin l' 0 i =
                 (\<Sum>j < nat (5 div 2). [1, 2, 3, 4, 5] ! (i * nat (5 div 2) + j))
                   / real (nat (5 div 2))))"
proof -
  have w: "wf_line \<lparr>levels = 2, data = [9, 9, 9, 0]\<rparr> 2"
    by (simp add: wf_line_def is_pow2_def resolution_def resolutionFor_def allocation_def int32_def)
  have h: "(5::int) \<le> int (length [1, 2, 3, 4, 5 :: real])" "(2::int) \<le> 5"
    by simp_all
  have v: "reduceMean \<lparr>levels = 2, data = [9, 9, 9, 0]\<rparr> [1, 2, 3, 4, 5] 5
        = Inr \<lparr>levels = 2, data = [3 / 2, 7 / 2, 5 / 2, 0]\<rparr>"
    by (simp add: reduceMean_def rebuild_def mean_def Let_def resolution_def resolutionFor_def
        allocation_def int32_def numeral_2_eq_2)
  show ?thesis
    using w h v reduceMean_level0 [OF w h] by blast
qed

section \<open>Claims about the context\<close>

text \<open>
  C6: a commit writes its row at the cursor \<open>m_row\<close>, leaves the other rows, and moves
  the cursor to \<open>(m_row + 1) mod m_rowCount\<close>. After \<open>n\<close> commits the cursor is
  \<open>(m_row + n) mod m_rowCount\<close>, that is \<open>n mod m_rowCount\<close> from cursor 0, and it stays
  in \<open>[0, m_rowCount)\<close>. With 3 rows and the cursor at 0, five commits leave the cursor at
  2 and the rows of the first two commits overwritten by those of the fourth and fifth.
\<close>

theorem commits_cursor:
  assumes "m_waterfall c = Some t" "length t = nat (m_rowCount c)"
    "0 \<le> m_row c" "m_row c < m_rowCount c"
  shows "(\<exists>c1. commit line c = Inr c1
            \<and> m_waterfall c1 = Some (t[nat (m_row c) := line])
            \<and> m_row c1 = (m_row c + 1) mod m_rowCount c)
       \<and> (\<exists>c'. commits lines c = Inr c'
            \<and> m_row c' = (m_row c + int (length lines)) mod m_rowCount c
            \<and> (m_row c = 0 \<longrightarrow> m_row c' = int (length lines) mod m_rowCount c)
            \<and> 0 \<le> m_row c' \<and> m_row c' < m_rowCount c' \<and> m_rowCount c' = m_rowCount c)
       \<and> (m_rowCount c = 3 \<and> m_row c = 0 \<longrightarrow>
            (\<exists>c'. commits [r1, r2, r3, r4, r5] c = Inr c'
              \<and> m_row c' = 2 \<and> m_waterfall c' = Some [r4, r5, r3]))"
proof -
  have pos: "0 < m_rowCount c"
    using assms(3,4) by simp
  have a: "\<exists>c1. commit line c = Inr c1
            \<and> m_waterfall c1 = Some (t[nat (m_row c) := line])
            \<and> m_row c1 = (m_row c + 1) mod m_rowCount c"
    using commit_step [OF assms, of line] by simp
  from commits_run [OF assms, of lines] obtain c' where
    r: "commits lines c = Inr c'" "m_rowCount c' = m_rowCount c"
    "m_row c' = (m_row c + int (length lines)) mod m_rowCount c"
    by blast
  have "0 \<le> m_row c'" "m_row c' < m_rowCount c'"
    unfolding r(2,3) using pos by simp_all
  with r have b: "\<exists>c'. commits lines c = Inr c'
            \<and> m_row c' = (m_row c + int (length lines)) mod m_rowCount c
            \<and> (m_row c = 0 \<longrightarrow> m_row c' = int (length lines) mod m_rowCount c)
            \<and> 0 \<le> m_row c' \<and> m_row c' < m_rowCount c' \<and> m_rowCount c' = m_rowCount c"
    by simp
  have d: "\<exists>c'. commits [r1, r2, r3, r4, r5] c = Inr c'
              \<and> m_row c' = 2 \<and> m_waterfall c' = Some [r4, r5, r3]"
    if h: "m_rowCount c = 3 \<and> m_row c = 0"
  proof -
    from assms(2) h have "length t = 3"
      by simp
    then obtain a0 a1 a2 where t: "t = [a0, a1, a2]"
      by (auto simp add: length_Suc_conv numeral_3_eq_3)
    show ?thesis
      using assms(1) h unfolding t by (simp add: commit_def)
  qed
  show ?thesis
    using a b d by blast
qed

theorem commits_cursor_witness:
  "m_waterfall (new_context\<lparr>m_rowCount := 3, m_waterfall := Some [[], [], []]\<rparr>)
     = Some [[], [], []]
   \<and> length [[], [], [] :: real list]
     = nat (m_rowCount (new_context\<lparr>m_rowCount := 3, m_waterfall := Some [[], [], []]\<rparr>))
   \<and> 0 \<le> m_row (new_context\<lparr>m_rowCount := 3, m_waterfall := Some [[], [], []]\<rparr>)
   \<and> m_row (new_context\<lparr>m_rowCount := 3, m_waterfall := Some [[], [], []]\<rparr>)
     < m_rowCount (new_context\<lparr>m_rowCount := 3, m_waterfall := Some [[], [], []]\<rparr>)
   \<and> (\<exists>c'. commits [[1], [2], [3], [4], [5]]
              (new_context\<lparr>m_rowCount := 3, m_waterfall := Some [[], [], []]\<rparr>) = Inr c'
          \<and> m_row c' = 2 \<and> m_waterfall c' = Some [[4], [5], [3]])"
proof -
  let ?c = "new_context\<lparr>m_rowCount := 3, m_waterfall := Some [[], [], []]\<rparr>"
  have h: "m_waterfall ?c = Some [[], [], []]" "length [[], [], [] :: real list] = nat (m_rowCount ?c)"
    "0 \<le> m_row ?c" "m_row ?c < m_rowCount ?c"
    by (simp_all add: new_context_def)
  have g: "m_rowCount ?c = 3 \<and> m_row ?c = 0"
    by (simp add: new_context_def)
  show ?thesis
    using h g commits_cursor [OF h, of _ _ "[1]" "[2]" "[3]" "[4]" "[5]"] by blast
qed

text \<open>
  C10: \<open>setMaxBlending(b)\<close> sets the flag \<open>m_useMaxBlending\<close> of the context to \<open>b\<close> and
  changes nothing else: history, pool, write cursor, geometry, palette and every other
  field of the context are as before (putting the old flag back gives the old context),
  and so is the rest of the widget.
\<close>

theorem setMaxBlending_frame:
  "m_useMaxBlending (glCtx (setMaxBlending w b)) = b
   \<and> m_history (glCtx (setMaxBlending w b)) = m_history (glCtx w)
   \<and> m_pool (glCtx (setMaxBlending w b)) = m_pool (glCtx w)
   \<and> m_row (glCtx (setMaxBlending w b)) = m_row (glCtx w)
   \<and> m_rowSize (glCtx (setMaxBlending w b)) = m_rowSize (glCtx w)
   \<and> m_rowCount (glCtx (setMaxBlending w b)) = m_rowCount (glCtx w)
   \<and> m_maxRowSize (glCtx (setMaxBlending w b)) = m_maxRowSize (glCtx w)
   \<and> m_firstAccum (glCtx (setMaxBlending w b)) = m_firstAccum (glCtx w)
   \<and> m_waterfall (glCtx (setMaxBlending w b)) = m_waterfall (glCtx w)
   \<and> m_palette (glCtx (setMaxBlending w b)) = m_palette (glCtx w)
   \<and> m_paletBuf (glCtx (setMaxBlending w b)) = m_paletBuf (glCtx w)
   \<and> m_updatePalette (glCtx (setMaxBlending w b)) = m_updatePalette (glCtx w)
   \<and> (glCtx (setMaxBlending w b))\<lparr>m_useMaxBlending := m_useMaxBlending (glCtx w)\<rparr> = glCtx w
   \<and> abstractWaterfall (setMaxBlending w b) = abstractWaterfall w"
  unfolding setMaxBlending_def by simp

end
